theory Spec2Isabelle
  imports Main
begin

section \<open>The priority queue (packages/core/dist/queue.js)\<close>

subsection \<open>Priorities and the comparisons of the selection rule\<close>

text \<open>
  The third argument of \<open>push\<close> is stored in the task as it is given. It is a number,
  the value \<open>null\<close>, or \<open>undefined\<close> when the argument is left out (as \<open>flush\<close> and the
  snapshot and upload pushes of the core do).
\<close>

datatype prio = Undefined | Null | Num int

text \<open>The test \<open>p != null\<close> (loose inequality): false for both \<open>null\<close> and \<open>undefined\<close>.\<close>

fun not_nullish :: "prio \<Rightarrow> bool" where
  "not_nullish (Num n) = True"
| "not_nullish Null = False"
| "not_nullish Undefined = False"

text \<open>
  The numeric conversion applied by the relational operator \<open><\<close>: \<open>undefined\<close> becomes
  NaN (here \<open>None\<close>), \<open>null\<close> becomes \<open>0\<close>.
\<close>

fun to_number :: "prio \<Rightarrow> int option" where
  "to_number Undefined = None"
| "to_number Null = Some 0"
| "to_number (Num n) = Some n"

text \<open>\<open>a < b\<close>: false as soon as one side is NaN.\<close>

definition js_less :: "prio \<Rightarrow> prio \<Rightarrow> bool" where
  "js_less a b =
     (case to_number a of
        None \<Rightarrow> False
      | Some x \<Rightarrow> (case to_number b of None \<Rightarrow> False | Some y \<Rightarrow> x < y))"

subsection \<open>Tasks and the two maps\<close>

text \<open>
  A callback is either given by the caller, and then opaque (a label), or it is the
  function that \<open>flush\<close> makes for its own task, \<open>() => { if (stopped) this.stop(); }\<close>,
  which is known by the value of \<open>stopped\<close> it has captured.
\<close>

datatype callback = Opaque nat | Restore bool

text \<open>
  A task as \<open>push\<close> builds it. The field \<open>promise\<close> is the identity of the promise created
  for the task (with its \<open>resolve\<close> and \<open>reject\<close>): the number of the \<open>push\<close> call that
  made it.
\<close>

record task =
  tid :: string
  callback :: callback
  priority :: prio
  promise :: nat

text \<open>
  The maps \<open>#queued\<close> and \<open>#pending\<close> iterate in insertion order, so each is a list of
  tasks keyed by \<open>tid\<close>. \<open>map_set\<close> is \<open>Map.prototype.set\<close>: a present key keeps its place
  and gets the new value, a new key goes last.
\<close>

definition map_has :: "string \<Rightarrow> task list \<Rightarrow> bool" where
  "map_has i ts = (i \<in> set (map tid ts))"

definition map_get :: "string \<Rightarrow> task list \<Rightarrow> task option" where
  "map_get i ts = find (\<lambda>t. tid t = i) ts"

definition map_delete :: "string \<Rightarrow> task list \<Rightarrow> task list" where
  "map_delete i ts = filter (\<lambda>t. tid t \<noteq> i) ts"

definition map_set :: "task \<Rightarrow> task list \<Rightarrow> task list" where
  "map_set t ts =
     (if map_has (tid t) ts
      then map (\<lambda>u. if tid u = tid t then t else u) ts
      else ts @ [t])"

subsection \<open>The queue and its observable effects\<close>

text \<open>
  A task's promise is settled by \<open>task.resolve\<close> or \<open>task.reject\<close>; a rejection is the
  distinguished canceled failure or any other error.
\<close>

datatype failure = Canceled | Failed

datatype outcome = Resolved | Rejected failure

text \<open>
  The fields of the class, followed by a record of what the queue has done: \<open>started\<close>
  lists the tasks whose callback was handed to \<open>generatePromise\<close>; \<open>promotions\<close> lists,
  for each of them, the task and the content of \<open>#queued\<close> at the moment \<open>_dequeue\<close> took it;
  \<open>handles\<close> holds the promises of the tasks whose \<open>task.cancel\<close> is a function,
  \<open>triggered\<close> those of the tasks whose \<open>cancel\<close> handle was called; \<open>settled\<close> holds the
  calls of \<open>task.resolve\<close> and \<open>task.reject\<close>; \<open>pushes\<close> counts the tasks built so far (the
  identity of the next promise).
\<close>

record queue =
  concurrency :: int
  running :: bool
  closed :: bool
  queued :: "task list"
  pending :: "task list"
  started :: "task list"
  promotions :: "(task \<times> task list) list"
  handles :: "nat list"
  triggered :: "nat list"
  settled :: "(nat \<times> outcome) list"
  pushes :: nat

definition new_queue :: "int \<Rightarrow> queue" where
  "new_queue c =
     \<lparr>concurrency = c, running = True, closed = False, queued = [], pending = [],
      started = [], promotions = [], handles = [], triggered = [], settled = [], pushes = 0\<rparr>"

definition flush_id :: string where
  "flush_id = ''@@/flush''"

subsection \<open>Selection: \<open>next\<close>\<close>

text \<open>
  The condition under which the scanned task replaces the candidate:
  \<open>!next || task.priority != null && next.priority == null || task.priority < next.priority\<close>.
\<close>

definition replaces :: "task \<Rightarrow> task option \<Rightarrow> bool" where
  "replaces t nxt =
     (case nxt of
        None \<Rightarrow> True
      | Some c \<Rightarrow>
          (not_nullish (priority t) \<and> \<not> not_nullish (priority c))
          \<or> js_less (priority t) (priority c))"

text \<open>The loop of \<open>next\<close> over the queued tasks, leaving at the flush task.\<close>

fun scan :: "task option \<Rightarrow> task list \<Rightarrow> task option" where
  "scan nxt [] = nxt"
| "scan nxt (t # ts) =
     (let nxt' = (if replaces t nxt then Some t else nxt)
      in if tid t = flush_id then nxt' else scan nxt' ts)"

definition queue_next :: "queue \<Rightarrow> task option" where
  "queue_next q = scan None (queued q)"

lemma scan_result: "scan nxt ts = Some t \<Longrightarrow> nxt = Some t \<or> t \<in> set ts"
  by (induction ts arbitrary: nxt) (auto simp: Let_def split: if_splits)

lemma queue_next_queued: "queue_next q = Some t \<Longrightarrow> t \<in> set (queued q)"
  using scan_result [of None "queued q" t] by (simp add: queue_next_def)

lemma map_delete_shorter: "t \<in> set ts \<Longrightarrow> length (map_delete (tid t) ts) < length ts"
  unfolding map_delete_def
  by (induction ts) (auto simp: less_Suc_eq_le intro: le_less_trans [OF length_filter_le])

subsection \<open>Promotion: \<open>_dequeue\<close> and \<open>done\<close>\<close>

text \<open>
  What lies outside the class, taken as a parameter of everything that starts a task:
  \<open>throws c\<close> says whether \<open>generatePromise\<close> throws at once when it is handed the given
  callback \<open>c\<close>; \<open>handle cb\<close> whether the run it returns for \<open>cb\<close> has a \<open>cancel\<close> function
  (the source reads it with \<open>?.\<close>, so it may be missing); \<open>stops c\<close> whether the given
  callback \<open>c\<close> calls \<open>stop()\<close> on the queue while it is being started, as the callback of
  \<open>flush\<close> does and as the core's \<open>build/create\<close> does.
\<close>

record adapter =
  throws :: "nat \<Rightarrow> bool"
  handle :: "callback \<Rightarrow> bool"
  stops :: "nat \<Rightarrow> bool"

text \<open>No callback throws or stops the queue, and every run has a cancel handle.\<close>

definition calm :: adapter where
  "calm = \<lparr>throws = (\<lambda>c. False), handle = (\<lambda>cb. True), stops = (\<lambda>c. False)\<rparr>"

text \<open>The same, but no run has a cancel handle.\<close>

definition bare :: adapter where
  "bare = \<lparr>throws = (\<lambda>c. False), handle = (\<lambda>cb. False), stops = (\<lambda>c. False)\<rparr>"

fun throws_at_start :: "adapter \<Rightarrow> callback \<Rightarrow> bool" where
  "throws_at_start env (Opaque c) = throws env c"
| "throws_at_start env (Restore stopped) = False"

fun stops_at_start :: "adapter \<Rightarrow> callback \<Rightarrow> bool" where
  "stops_at_start env (Opaque c) = stops env c"
| "stops_at_start env (Restore stopped) = stopped"

text \<open>
  Modelled from the spec: the cancel handle of the adapter (\<open>gen.cancel\<close>, made by
  \<open>generatePromise\<close> in utils.js, which is not among the sources). Calling it marks the
  run of the task as canceled, once and for all; \<open>cancel.triggered\<close> reads the mark. What
  the run does then, and how the promise of the task settles, is the task's own later
  completion.
\<close>

definition call_cancel :: "task \<Rightarrow> queue \<Rightarrow> queue" where
  "call_cancel t q = q\<lparr>triggered := List.insert (promise t) (triggered q)\<rparr>"

text \<open>\<open>task.cancel?.triggered\<close>: the task has a handle and it was called.\<close>

definition cancel_triggered :: "task \<Rightarrow> queue \<Rightarrow> bool" where
  "cancel_triggered t q = (promise t \<in> set (handles q) \<and> promise t \<in> set (triggered q))"

declare call_cancel_def [simp] cancel_triggered_def [simp]

text \<open>
  The first two statements of \<open>done(callback)(arg)\<close>: unless the task's cancel handle has
  been triggered the id of the task leaves \<open>#pending\<close>, then the promise is settled. The
  third statement, the call of \<open>_dequeue\<close>, is made by the callers below.
\<close>

definition finish :: "task \<Rightarrow> outcome \<Rightarrow> queue \<Rightarrow> queue" where
  "finish t out q =
     (let q1 = (if cancel_triggered t q then q
                else q\<lparr>pending := map_delete (tid t) (pending q)\<rparr>)
      in q1\<lparr>settled := settled q1 @ [(promise t, out)]\<rparr>)"

text \<open>The task moves from \<open>#queued\<close> to \<open>#pending\<close> and its callback goes to the adapter.\<close>

definition promote :: "task \<Rightarrow> queue \<Rightarrow> queue" where
  "promote t q =
     q\<lparr>queued := map_delete (tid t) (queued q),
       pending := map_set t (pending q),
       started := started q @ [t],
       promotions := promotions q @ [(t, queued q)]\<rparr>"

text \<open>\<open>task.cancel = gen.cancel\<close>.\<close>

definition assign_handle :: "adapter \<Rightarrow> task \<Rightarrow> queue \<Rightarrow> queue" where
  "assign_handle env t q =
     (if handle env (callback t) then q\<lparr>handles := promise t # handles q\<rparr> else q)"

text \<open>
  \<open>_dequeue\<close>. After the promotion the callback is started, which may stop the queue. If
  the adapter throws, the \<open>catch\<close> branch runs \<open>done(task.reject)(err)\<close>, with its own call
  of \<open>_dequeue\<close>; otherwise the handle is stored and the task stays pending until its
  completion arrives as an event of its own.
\<close>

function dequeue :: "adapter \<Rightarrow> queue \<Rightarrow> queue" where
  "dequeue env q =
     (if \<not> running q then q
      else if concurrency q \<le> int (length (pending q)) then q
      else (case queue_next q of
              None \<Rightarrow> q
            | Some t \<Rightarrow>
                let q1 = (if stops_at_start env (callback t)
                          then (promote t q)\<lparr>running := False\<rparr>
                          else promote t q)
                in if throws_at_start env (callback t)
                   then dequeue env (finish t (Rejected Failed) q1)
                   else assign_handle env t q1))"
  by pat_completeness auto
termination dequeue
proof (relation "measure (\<lambda>(env, q). length (queued q))")
  show "wf (measure (\<lambda>(env, q). length (queued q)))" by simp
next
  fix env :: adapter and q :: queue and t :: task and q1 :: queue
  assume "queue_next q = Some t"
    and q1: "q1 = (if stops_at_start env (callback t)
                   then (promote t q)\<lparr>running := False\<rparr> else promote t q)"
  then have "t \<in> set (queued q)" by (simp add: queue_next_queued)
  then have "length (map_delete (tid t) (queued q)) < length (queued q)"
    by (rule map_delete_shorter)
  then show "((env, finish t (Rejected Failed) q1), (env, q))
      \<in> measure (\<lambda>(env, q). length (queued q))"
    by (simp add: q1 finish_def promote_def Let_def)
qed

declare dequeue.simps [simp del]

lemma scan_candidate: "\<exists>t. scan (Some c) ts = Some t"
  by (induction ts arbitrary: c) (auto simp: Let_def)

lemma queue_next_nonempty: "queued q \<noteq> [] \<Longrightarrow> queue_next q \<noteq> None"
  by (cases "queued q") (auto simp: queue_next_def replaces_def Let_def scan_candidate)

text \<open>
  A property of the state that every step of \<open>_dequeue\<close> keeps is kept by \<open>_dequeue\<close>.
\<close>

lemma dequeue_preserves:
  assumes step: "\<And>q t. P q \<Longrightarrow> queue_next q = Some t \<Longrightarrow> running q
        \<Longrightarrow> int (length (pending q)) < concurrency q \<Longrightarrow> P (promote t q)"
    and halt: "\<And>q. P q \<Longrightarrow> P (q\<lparr>running := False\<rparr>)"
    and assign: "\<And>q p. P q \<Longrightarrow> P (q\<lparr>handles := p # handles q\<rparr>)"
    and fail: "\<And>q t. P q \<Longrightarrow> t \<in> set (started q) \<Longrightarrow> P (finish t (Rejected Failed) q)"
    and init: "P q"
  shows "P (dequeue env q)"
  using init
proof (induction env q rule: dequeue.induct)
  case (1 env q)
  show ?case
  proof (cases "running q \<and> int (length (pending q)) < concurrency q")
    case False
    with 1(2) show ?thesis by (auto simp: dequeue.simps [of env q])
  next
    case True
    show ?thesis
    proof (cases "queue_next q")
      case None
      with 1(2) show ?thesis by (simp add: dequeue.simps [of env q])
    next
      case (Some t)
      define q1 where "q1 = (if stops_at_start env (callback t)
          then (promote t q)\<lparr>running := False\<rparr> else promote t q)"
      from 1(2) Some True have "P (promote t q)" by (simp add: step)
      then have p: "P q1" by (simp add: q1_def halt)
      have st: "t \<in> set (started q1)" by (simp add: q1_def promote_def)
      show ?thesis
      proof (cases "throws_at_start env (callback t)")
        case False
        from p have "P (assign_handle env t q1)" by (simp add: assign_handle_def assign)
        with Some True False show ?thesis
          by (simp add: dequeue.simps [of env q] q1_def)
      next
        case thr: True
        from p st have "P (finish t (Rejected Failed) q1)" by (rule fail)
        with 1(1) [OF _ _ Some q1_def thr] True
        have "P (dequeue env (finish t (Rejected Failed) q1))" by simp
        with Some True thr show ?thesis
          by (simp add: dequeue.simps [of env q] q1_def)
      qed
    qed
  qed
qed

lemma dequeue_queued_le: "length (queued (dequeue env q)) \<le> length (queued q)"
proof (rule dequeue_preserves [where P = "\<lambda>q'. length (queued q') \<le> length (queued q)"])
  fix q' :: queue and t :: task
  assume "length (queued q') \<le> length (queued q)"
  moreover have "length (map_delete (tid t) (queued q')) \<le> length (queued q')"
    by (simp add: map_delete_def)
  ultimately show "length (queued (promote t q')) \<le> length (queued q)"
    by (simp add: promote_def)
next
  fix q' :: queue and t :: task
  assume "length (queued q') \<le> length (queued q)"
  then show "length (queued (finish t (Rejected Failed) q')) \<le> length (queued q)"
    by (simp add: finish_def Let_def)
qed simp_all

lemma dequeue_queued_less:
  assumes "running q" and "queued q \<noteq> []" and "int (length (pending q)) < concurrency q"
  shows "length (queued (dequeue env q)) < length (queued q)"
proof -
  from assms(2) obtain t where t: "queue_next q = Some t"
    using queue_next_nonempty by blast
  then have less: "length (map_delete (tid t) (queued q)) < length (queued q)"
    by (intro map_delete_shorter queue_next_queued)
  define q1 where "q1 = (if stops_at_start env (callback t)
      then (promote t q)\<lparr>running := False\<rparr> else promote t q)"
  have q1: "length (queued q1) < length (queued q)"
    using less by (simp add: q1_def promote_def)
  show ?thesis
  proof (cases "throws_at_start env (callback t)")
    case True
    have "length (queued (dequeue env (finish t (Rejected Failed) q1)))
        \<le> length (queued (finish t (Rejected Failed) q1))"
      by (rule dequeue_queued_le)
    moreover have "queued (finish t (Rejected Failed) q1) = queued q1"
      by (simp add: finish_def Let_def)
    ultimately have "length (queued (dequeue env (finish t (Rejected Failed) q1)))
        < length (queued q)"
      using q1 by simp
    with True t assms show ?thesis
      by (simp add: dequeue.simps [of env q] q1_def [symmetric])
  next
    case False
    with t q1 assms show ?thesis
      by (simp add: dequeue.simps [of env q] q1_def [symmetric] assign_handle_def)
  qed
qed

subsection \<open>The public operations\<close>

text \<open>
  \<open>cancel(id)\<close>: the cancel handle of a pending task is called if the task has one, then
  the id leaves both maps.
\<close>

definition cancel :: "string \<Rightarrow> queue \<Rightarrow> queue" where
  "cancel i q =
     (let q1 = (case map_get i (pending q) of
                  None \<Rightarrow> q
                | Some t \<Rightarrow> if promise t \<in> set (handles q) then call_cancel t q else q)
      in q1\<lparr>pending := map_delete i (pending q1), queued := map_delete i (queued q1)\<rparr>)"

text \<open>\<open>id.startsWith('@@/')\<close>.\<close>

definition is_sentinel :: "string \<Rightarrow> bool" where
  "is_sentinel i = (take 3 i = ''@@/'')"

text \<open>
  \<open>push(id, callback, priority)\<close> returns the state and the promise of the new task, or
  \<open>None\<close> where the source returns \<open>undefined\<close>.
\<close>

definition push :: "adapter \<Rightarrow> string \<Rightarrow> callback \<Rightarrow> prio \<Rightarrow> queue \<Rightarrow> queue \<times> nat option" where
  "push env i cb p q =
     (if closed q \<and> \<not> is_sentinel i then (q, None)
      else
        let q1 = cancel i q;
            t = \<lparr>tid = i, callback = cb, priority = p, promise = pushes q1\<rparr>;
            q2 = q1\<lparr>queued := map_set t (queued q1), pushes := Suc (pushes q1)\<rparr>
        in (dequeue env q2, Some (promise t)))"

definition has :: "string \<Rightarrow> queue \<Rightarrow> bool" where
  "has i q = (map_has i (queued q) \<or> map_has i (pending q))"

text \<open>The getter \<open>size\<close>.\<close>

definition queue_size :: "queue \<Rightarrow> nat" where
  "queue_size q = length (queued q) + length (pending q)"

text \<open>\<open>clear()\<close> returns the state and the number it returns.\<close>

definition clear :: "queue \<Rightarrow> queue \<times> nat" where
  "clear q = (let q1 = q\<lparr>queued := []\<rparr> in (q1, queue_size q1))"

text \<open>The loop of \<open>run()\<close>.\<close>

function run_loop :: "adapter \<Rightarrow> queue \<Rightarrow> queue" where
  "run_loop env q =
     (if running q \<and> queued q \<noteq> [] \<and> int (length (pending q)) < concurrency q
      then run_loop env (dequeue env q)
      else q)"
  by pat_completeness auto
termination run_loop
  by (relation "measure (\<lambda>(env, q). length (queued q))") (auto intro: dequeue_queued_less)

declare run_loop.simps [simp del]

definition run :: "adapter \<Rightarrow> queue \<Rightarrow> queue" where
  "run env q = run_loop env (q\<lparr>running := True\<rparr>)"

definition stop :: "queue \<Rightarrow> queue" where
  "stop q = q\<lparr>running := False\<rparr>"

definition open_queue :: "queue \<Rightarrow> queue" where
  "open_queue q = q\<lparr>closed := False\<rparr>"

definition close :: "bool \<Rightarrow> queue \<Rightarrow> queue" where
  "close abort q = (if abort then fst (clear (stop q)) else q)\<lparr>closed := True\<rparr>"

text \<open>
  \<open>flush(callback)\<close>, up to the call of \<open>idle\<close>: the state after \<open>run()\<close> and the push of
  the flush task with its callback, and the captured \<open>stopped\<close>. What the \<open>canceled\<close>
  handler does later (\<open>stop\<close>, \<open>cancel\<close>) are operations of their own.
\<close>

definition flush :: "adapter \<Rightarrow> queue \<Rightarrow> queue \<times> bool" where
  "flush env q =
     (let stopped = \<not> running q
      in (fst (push env flush_id (Restore stopped) Undefined (run env q)), stopped))"

text \<open>\<open>Array.prototype.indexOf\<close>: the first position of the element, or \<open>-1\<close>.\<close>

fun index_of :: "string \<Rightarrow> string list \<Rightarrow> int" where
  "index_of x [] = - 1"
| "index_of x (y # ys) =
     (if y = x then 0
      else (let r = index_of x ys in if r = - 1 then - 1 else r + 1))"

text \<open>What \<open>idle\<close> hands to its callback on a poll: \<open>this.#pending.size\<close>.\<close>

definition idle_poll :: "queue \<Rightarrow> int" where
  "idle_poll q = int (length (pending q))"

text \<open>
  What the callback of \<open>flush\<close> receives on a poll: \<open>pend + left\<close>, where \<open>left\<close> is reset to
  \<open>0\<close> only when the flush task is neither queued (\<open>!~left\<close>) nor pending.
\<close>

definition flush_left :: "queue \<Rightarrow> int" where
  "flush_left q =
     (let left = index_of flush_id (map tid (queued q))
      in if left = - 1 \<and> \<not> map_has flush_id (pending q) then 0 else left)"

definition flush_poll :: "queue \<Rightarrow> int" where
  "flush_poll q = idle_poll q + flush_left q"

subsection \<open>Histories of a queue\<close>

text \<open>
  The operations a queue undergoes: the calls of its public interface, where a pushed
  callback is a given one, and \<open>Done p out\<close>, the completion of the started task with
  promise \<open>p\<close> (the function \<open>done\<close> registered by \<open>_dequeue\<close>), which happens at most once
  and only to a task that was started.
\<close>

datatype op =
    Push string nat prio
  | Cancel string
  | Clear
  | Run
  | Stop
  | Open
  | Close bool
  | Flush
  | Done nat outcome

fun apply_op :: "adapter \<Rightarrow> queue \<Rightarrow> op \<Rightarrow> queue" where
  "apply_op env q (Push i c p) = fst (push env i (Opaque c) p q)"
| "apply_op env q (Cancel i) = cancel i q"
| "apply_op env q Clear = fst (clear q)"
| "apply_op env q Run = run env q"
| "apply_op env q Stop = stop q"
| "apply_op env q Open = open_queue q"
| "apply_op env q (Close abort) = close abort q"
| "apply_op env q Flush = fst (flush env q)"
| "apply_op env q (Done p out) =
     (case find (\<lambda>t. promise t = p) (started q) of
        None \<Rightarrow> q
      | Some t \<Rightarrow>
          if p \<in> set (map fst (settled q)) then q
          else dequeue env (finish t out q))"

definition run_ops :: "adapter \<Rightarrow> queue \<Rightarrow> op list \<Rightarrow> queue" where
  "run_ops env q ops = foldl (apply_op env) q ops"

section \<open>The logger (class PercyLogger)\<close>

subsection \<open>State\<close>

text \<open>The four properties of the object \<open>LOG_LEVELS\<close> itself.\<close>

definition own_level :: "string \<Rightarrow> nat option" where
  "own_level l =
     (if l = ''debug'' then Some 0
      else if l = ''info'' then Some 1
      else if l = ''warn'' then Some 2
      else if l = ''error'' then Some 3
      else None)"

text \<open>
  \<open>LOG_LEVELS[l]\<close>. The object is a plain one, so a name that is none of its own four
  finds what every object inherits (\<open>toString\<close>, \<open>constructor\<close>, ...). These members
  belong to the host and are a parameter: \<open>proto l\<close> is \<open>None\<close> when no member is named \<open>l\<close>,
  otherwise the text the member turns into under a comparison (the source text of a
  function), which is not a number.
\<close>

datatype level_value = Rank nat | Inherited string

definition LOG_LEVELS :: "(string \<Rightarrow> string option) \<Rightarrow> string \<Rightarrow> level_value option" where
  "LOG_LEVELS proto l =
     (case own_level l of
        Some n \<Rightarrow> Some (Rank n)
      | None \<Rightarrow> map_option Inherited (proto l))"

text \<open>The order of two texts under \<open><\<close>: by their code units, the shorter first.\<close>

fun text_less :: "string \<Rightarrow> string \<Rightarrow> bool" where
  "text_less [] [] = False"
| "text_less [] (y # ys) = True"
| "text_less (x # xs) [] = False"
| "text_less (x # xs) (y # ys) =
     ((of_char x :: nat) < of_char y \<or> (x = y \<and> text_less xs ys))"

text \<open>
  \<open>a >= b\<close> where \<open>a\<close> is not \<open>null\<close>: two numbers compare as numbers, two texts as
  texts; a number against a text that is no number, and anything against \<open>undefined\<close>, is
  false.
\<close>

fun at_least :: "level_value \<Rightarrow> level_value option \<Rightarrow> bool" where
  "at_least (Rank n) (Some (Rank m)) = (m \<le> n)"
| "at_least (Inherited s) (Some (Inherited s')) = (\<not> text_less s s')"
| "at_least (Rank n) (Some (Inherited s')) = False"
| "at_least (Inherited s) (Some (Rank m)) = False"
| "at_least a None = False"

text \<open>
  The text given to \<open>debug\<close> is split at white space, which reaches beyond one byte: such
  a text, and a regular expression made from it, is the list of its code units.
\<close>

type_synonym jsstring = "nat list"

definition js :: "string \<Rightarrow> jsstring" where
  "js s = map of_char s"

text \<open>
  A regular expression is kept as its source text. Matching is done by the host's engine,
  which the functions below take as the parameter \<open>test\<close> (\<open>ns.test(debug)\<close>), and
  \<open>valid\<close> says whether \<open>new RegExp\<close> accepts a source or throws a syntax error.
\<close>

datatype regexp = RegExp jsstring

text \<open>
  The property \<open>namespaces.string\<close>: absent at first, the text given to \<open>debug\<close>, or an array
  of texts (the initial value of the \<open>reduce\<close> in \<open>debug\<close> stores the split array there).
\<close>

datatype ns_source = Unset | Text jsstring | Parts "jsstring list"

record namespaces =
  ns_string :: ns_source
  ns_include :: "regexp list"
  ns_exclude :: "regexp list"

text \<open>
  A message is a string or another object, of which \<open>log\<close> reads \<open>stack\<close>, \<open>message\<close> and
  \<open>toString()\<close>.
\<close>

datatype message = Str string | Obj "string option" "string option" string

type_synonym meta = "(string \<times> string) list"

record entry =
  entry_debug :: string
  entry_level :: string
  entry_message :: string
  entry_meta :: meta
  entry_timestamp :: int

text \<open>What a stream is asked to do, and what is sent over the socket.\<close>

datatype stdio = Write string | CursorTo nat | ClearLine "nat option"

datatype wire = Plain message | Serialized "string option" "string option"

datatype packet = LogPacket string string wire meta

record logger =
  level :: string
  namespaces :: namespaces
  messages :: "entry list"
  lastlog :: "int option"
  progress :: "(string \<times> bool) option"
  socket :: "nat option"
  sent :: "packet list"
  stdout :: "stdio list"
  stderr :: "stdio list"
  isTTY :: bool

definition new_logger :: logger where
  "new_logger =
     \<lparr>level = ''info'',
      namespaces = \<lparr>ns_string = Unset, ns_include = [RegExp (js ''^.*?$'')], ns_exclude = []\<rparr>,
      messages = [], lastlog = None, progress = None, socket = None, sent = [],
      stdout = [], stderr = [], isTTY = False\<rparr>"

subsection \<open>Level and namespaces\<close>

text \<open>\<open>loglevel(level)\<close>: an empty (falsy) argument leaves the level as it is.\<close>

definition loglevel :: "string \<Rightarrow> logger \<Rightarrow> logger" where
  "loglevel l lg = (if l \<noteq> [] then lg\<lparr>level := l\<rparr> else lg)"

text \<open>
  The class \<open>[\s,]\<close>: the comma and the white space of the language, which is tab, line
  feed, vertical tab, form feed, carriage return, space, U+00A0, U+1680, U+2000 to U+200A,
  U+2028, U+2029, U+202F, U+205F, U+3000 and U+FEFF.
\<close>

definition is_separator :: "nat \<Rightarrow> bool" where
  "is_separator c =
     (c \<in> set [44, 9, 10, 11, 12, 13, 32, 160, 5760, 8232, 8233, 8239, 8287, 12288, 65279]
      \<or> (8192 \<le> c \<and> c \<le> 8202))"

text \<open>\<open>split(/[\s,]+/).filter(Boolean)\<close>: the maximal runs of code units that are neither
  white space nor commas.\<close>

fun split_names :: "jsstring \<Rightarrow> jsstring \<Rightarrow> jsstring list" where
  "split_names cur [] = (if cur = [] then [] else [cur])"
| "split_names cur (c # cs) =
     (if is_separator c
      then (if cur = [] then split_names [] cs else cur # split_names [] cs)
      else split_names (cur @ [c]) cs)"

text \<open>\<open>ns.replace(/:?\*/g, m => m[0] === ':' ? ':?.*?' : '.*?')\<close>.\<close>

fun expand_stars :: "jsstring \<Rightarrow> jsstring" where
  "expand_stars [] = []"
| "expand_stars [c] = (if c = of_char (CHR ''*'') then js ''.*?'' else [c])"
| "expand_stars (c # d # cs) =
     (if c = of_char (CHR '':'') \<and> d = of_char (CHR ''*'') then js '':?.*?'' @ expand_stars cs
      else if c = of_char (CHR ''*'') then js ''.*?'' @ expand_stars (d # cs)
      else c # expand_stars (d # cs))"

text \<open>
  The \<open>reduce\<close> of \<open>debug\<close>: each name goes to \<open>exclude\<close> when it starts with \<open>-\<close>, to
  \<open>include\<close> otherwise. \<open>None\<close> when \<open>new RegExp\<close> throws.
\<close>

fun collect :: "(jsstring \<Rightarrow> bool) \<Rightarrow> namespaces \<Rightarrow> jsstring list \<Rightarrow> namespaces option" where
  "collect valid acc [] = Some acc"
| "collect valid acc (n # ns) =
     (let e = expand_stars n in
      if e \<noteq> [] \<and> hd e = of_char (CHR ''-'')
      then (if valid (js ''^'' @ tl e @ js ''$'')
            then collect valid
                   (acc\<lparr>ns_exclude := ns_exclude acc @ [RegExp (js ''^'' @ tl e @ js ''$'')]\<rparr>) ns
            else None)
      else (if valid (js ''^'' @ e @ js ''$'')
            then collect valid
                   (acc\<lparr>ns_include := ns_include acc @ [RegExp (js ''^'' @ e @ js ''$'')]\<rparr>) ns
            else None))"

text \<open>
  \<open>debug(namespaces)\<close> returns the state and whether it returned (\<open>True\<close>) or threw the
  syntax error of \<open>new RegExp\<close> (\<open>False\<close>).
\<close>

definition debug :: "(jsstring \<Rightarrow> bool) \<Rightarrow> jsstring \<Rightarrow> logger \<Rightarrow> logger \<times> bool" where
  "debug valid s lg =
     (if ns_string (namespaces lg) = Text s then (lg, True)
      else
        let lg1 = lg\<lparr>namespaces := (namespaces lg)\<lparr>ns_string := Text s\<rparr>\<rparr>;
            names = split_names [] s
        in if names = [] then (lg1, True)
           else
             let lg2 = loglevel ''debug'' lg1 in
             (case collect valid \<lparr>ns_string = Parts names, ns_include = [], ns_exclude = []\<rparr> names of
                None \<Rightarrow> (lg2, False)
              | Some ns \<Rightarrow> (lg2\<lparr>namespaces := ns\<rparr>, True)))"

text \<open>
  \<open>shouldLog(debug, level)\<close>: \<open>LOG_LEVELS[level] != null\<close>, then \<open>>=\<close> against the current
  level, then the two lists of expressions.
\<close>

definition shouldLog ::
  "(regexp \<Rightarrow> string \<Rightarrow> bool) \<Rightarrow> (string \<Rightarrow> string option) \<Rightarrow> string \<Rightarrow> string \<Rightarrow> logger
     \<Rightarrow> bool" where
  "shouldLog test proto dbg lvl lg =
     (case LOG_LEVELS proto lvl of
        None \<Rightarrow> False
      | Some a \<Rightarrow>
          at_least a (LOG_LEVELS proto (level lg))
          \<and> \<not> list_ex (\<lambda>ns. test ns dbg) (ns_exclude (namespaces lg))
          \<and> list_ex (\<lambda>ns. test ns dbg) (ns_include (namespaces lg)))"

definition isRemote :: "logger \<Rightarrow> bool" where
  "isRemote lg = (socket lg = Some 1)"

subsection \<open>Formatting and writing\<close>

text \<open>
  \<open>colorize(code, str)\<close> wraps every line of the string (the matches of \<open>/^.*$/gm\<close>) in an
  escape sequence.
\<close>

definition wrap_line :: "string \<Rightarrow> string \<Rightarrow> string" where
  "wrap_line code line = CHR 0x1B # ''['' @ code @ line @ CHR 0x1B # ''[39m''"

fun colorize_lines :: "string \<Rightarrow> string \<Rightarrow> string \<Rightarrow> string" where
  "colorize_lines code line [] = wrap_line code line"
| "colorize_lines code line (c # cs) =
     (if c = CHR 0x0A \<or> c = CHR 0x0D
      then wrap_line code line @ c # colorize_lines code [] cs
      else colorize_lines code (line @ [c]) cs)"

definition colorize :: "string \<Rightarrow> string \<Rightarrow> string" where
  "colorize code str = colorize_lines code [] str"

text \<open>A number inside a template string.\<close>

fun digits :: "nat \<Rightarrow> string" where
  "digits n = (if n < 10 then [char_of (48 + n)] else digits (n div 10) @ [char_of (48 + n mod 10)])"

declare digits.simps [simp del]

definition show_int :: "int \<Rightarrow> string" where
  "show_int i = (if i < 0 then CHR ''-'' # digits (nat (- i)) else digits (nat i))"

text \<open>
  \<open>format(debug, level, message, elapsed)\<close> with its four arguments, as \<open>log\<close> calls it.
  \<open>url\<close> stands for the first match of \<open>URL_REGEXP\<close>: the text before it, the match and
  the text after it.
\<close>

definition format ::
  "(string \<Rightarrow> (string \<times> string \<times> string) option) \<Rightarrow> string \<Rightarrow> string \<Rightarrow> string \<Rightarrow> int option
     \<Rightarrow> logger \<Rightarrow> string" where
  "format url dbg lvl msg elapsed lg =
     (let label = (if level lg = ''debug'' \<and> dbg \<noteq> [] then ''percy'' @ '':'' @ dbg else ''percy'');
          suffix = (case elapsed of
                      Some e \<Rightarrow>
                        if level lg = ''debug''
                        then '' '' @ colorize ''90m'' (''('' @ show_int e @ ''ms)'')
                        else []
                    | None \<Rightarrow> []);
          msg' = (if lvl = ''error'' then colorize ''91m'' msg
                  else if lvl = ''warn'' then colorize ''93m'' msg
                  else if lvl = ''info'' \<or> lvl = ''debug''
                  then (case url msg of
                          None \<Rightarrow> msg
                        | Some (before, found, after) \<Rightarrow> before @ colorize ''34m'' found @ after)
                  else msg)
      in ''['' @ colorize ''95m'' label @ ''] '' @ msg' @ suffix)"

text \<open>\<open>write(level, message)\<close>.\<close>

definition logger_write :: "string \<Rightarrow> string \<Rightarrow> logger \<Rightarrow> logger" where
  "logger_write lvl msg lg =
     (let prog = (if isTTY lg then progress lg else None);
          lg1 = (if prog \<noteq> None then lg\<lparr>stdout := stdout lg @ [CursorTo 0, ClearLine None]\<rparr> else lg);
          lg2 = (if lvl = ''info''
                 then lg1\<lparr>stdout := stdout lg1 @ [Write (msg @ [CHR 0x0A])]\<rparr>
                 else lg1\<lparr>stderr := stderr lg1 @ [Write (msg @ [CHR 0x0A])]\<rparr>)
      in case progress lg2 of
           None \<Rightarrow> lg2
         | Some (pm, persist) \<Rightarrow>
             if \<not> persist then lg2\<lparr>progress := None\<rparr>
             else (case prog of
                     None \<Rightarrow> lg2
                   | Some (m, _) \<Rightarrow> lg2\<lparr>stdout := stdout lg2 @ [Write m]\<rparr>))"

subsection \<open>\<open>log\<close>\<close>

text \<open>The object spread \<open>{remote: true, ...meta}\<close>.\<close>

definition with_remote :: "meta \<Rightarrow> meta" where
  "with_remote m =
     (''remote'', (case map_of m ''remote'' of Some v \<Rightarrow> v | None \<Rightarrow> ''true''))
       # filter (\<lambda>kv. fst kv \<noteq> ''remote'') m"

text \<open>
  \<open>isError && message.stack || message.message || message.toString()\<close>; an empty string
  is falsy.
\<close>

fun message_text :: "bool \<Rightarrow> message \<Rightarrow> string" where
  "message_text isError (Str s) = s"
| "message_text isError (Obj stack msg str) =
     (case (if isError then stack else None) of
        Some st \<Rightarrow> if st \<noteq> [] then st else (case msg of Some m \<Rightarrow> if m \<noteq> [] then m else str | None \<Rightarrow> str)
      | None \<Rightarrow> (case msg of Some m \<Rightarrow> if m \<noteq> [] then m else str | None \<Rightarrow> str))"

fun message_string :: "message \<Rightarrow> string" where
  "message_string (Str s) = s"
| "message_string (Obj stack msg str) = str"

fun is_string :: "message \<Rightarrow> bool" where
  "is_string (Str s) = True"
| "is_string (Obj stack msg str) = False"

text \<open>
  \<open>log(debug, level, message, meta)\<close>; \<open>now\<close> is the value of \<open>Date.now()\<close>. When remote
  the call only sends; otherwise the entry is stored and, if \<open>shouldLog\<close> allows, written.
\<close>

definition log ::
  "(regexp \<Rightarrow> string \<Rightarrow> bool) \<Rightarrow> (string \<Rightarrow> string option)
     \<Rightarrow> (string \<Rightarrow> (string \<times> string \<times> string) option) \<Rightarrow> int
     \<Rightarrow> string \<Rightarrow> string \<Rightarrow> message \<Rightarrow> meta option \<Rightarrow> logger \<Rightarrow> logger" where
  "log test proto url now dbg lvl msg meta_arg lg =
     (let meta = (case meta_arg of Some m \<Rightarrow> m | None \<Rightarrow> []);
          isError = (\<not> is_string msg \<and> (lvl = ''error'' \<or> lvl = ''debug''))
      in if isRemote lg
         then lg\<lparr>sent := sent lg @
                [LogPacket dbg lvl
                   (case msg of
                      Obj (Some st) m str \<Rightarrow> if isError then Serialized m (Some st) else Plain msg
                    | _ \<Rightarrow> Plain msg)
                   (with_remote meta)]\<rparr>
         else
           let body = message_text isError msg;
               lg1 = lg\<lparr>messages := messages lg @
                       [\<lparr>entry_debug = dbg, entry_level = lvl, entry_message = body,
                         entry_meta = meta, entry_timestamp = now\<rparr>]\<rparr>
           in if shouldLog test proto dbg lvl lg1
              then
                let elapsed = now - (case lastlog lg1 of
                                       Some l \<Rightarrow> if l \<noteq> 0 then l else now
                                     | None \<Rightarrow> now);
                    body' = (if isError \<and> level lg1 \<noteq> ''debug'' then message_string msg else body);
                    lg2 = logger_write lvl
                            (format url dbg (if isError then ''error'' else lvl) body' (Some elapsed) lg1)
                            lg1
                in lg2\<lparr>lastlog := Some now\<rparr>
              else lg1)"

section \<open>The core (class Percy)\<close>

text \<open>
  The part of the instance that \<open>snapshot\<close> reads and changes: \<open>readyState\<close> (\<open>None\<close> is
  \<open>null\<close>), the build if there is one, and the two queues.
\<close>

record build =
  build_id :: "string option"
  build_error :: "string option"
  build_failed :: bool

record percy =
  readyState :: "nat option"
  current_build :: "build option"
  snapshots :: queue
  uploads :: queue

text \<open>A gathered snapshot: its name and the names of its \<open>additionalSnapshots\<close>.\<close>

record snapshot_info =
  snapshot_name :: string
  additional_names :: "string list"

text \<open>
  The argument of \<open>snapshot\<close>: a string, an object (opaque, a label) or an array. A string
  becomes \<open>{sitemap}\<close> when it ends in \<open>.xml\<close> and \<open>{url}\<close> otherwise.
\<close>

datatype options = OString string | OObject nat | OArray "options list"

datatype plain_options = Sitemap string | PageUrl string | Given nat

definition ends_with :: "string \<Rightarrow> string \<Rightarrow> bool" where
  "ends_with suffix s =
     (length suffix \<le> length s \<and> drop (length s - length suffix) s = suffix)"

text \<open>\<open>this.build?.error\<close> as a condition: present and not the empty string.\<close>

definition build_error_set :: "percy \<Rightarrow> string option" where
  "build_error_set p =
     (case current_build p of
        None \<Rightarrow> None
      | Some b \<Rightarrow> (case build_error b of None \<Rightarrow> None | Some e \<Rightarrow> if e \<noteq> [] then Some e else None))"

text \<open>\<open>_cancelSnapshot\<close> and \<open>_takeSnapshot\<close>; \<open>cb\<close> labels the discovery callback.\<close>

definition cancel_snapshot :: "snapshot_info \<Rightarrow> percy \<Rightarrow> percy" where
  "cancel_snapshot s p =
     (let p1 = p\<lparr>snapshots := cancel (''snapshot/'' @ snapshot_name s) (snapshots p)\<rparr>
      in foldl (\<lambda>p' n. p'\<lparr>uploads := cancel (''upload/'' @ n) (uploads p')\<rparr>) p1
           (snapshot_name s # additional_names s))"

definition take_snapshot :: "adapter \<Rightarrow> nat \<Rightarrow> percy \<Rightarrow> snapshot_info \<Rightarrow> percy" where
  "take_snapshot env cb p s =
     (let p1 = cancel_snapshot s p
      in p1\<lparr>snapshots :=
              fst (push env (''snapshot/'' @ snapshot_name s) (Opaque cb) Undefined (snapshots p1))\<rparr>)"

text \<open>
  \<open>snapshot(options)\<close> returns the state and the error thrown, if any. The collaborators
  outside the class are parameters: \<open>validate\<close> is \<open>validateSnapshotOptions\<close> (an error
  message or the validated options), \<open>gather\<close> is \<open>gatherSnapshots\<close>. The generator the
  source returns is run here to its end: every gathered snapshot is taken in turn.
\<close>

fun snapshot ::
  "adapter \<Rightarrow> (plain_options \<Rightarrow> string + nat) \<Rightarrow> (nat \<Rightarrow> snapshot_info list) \<Rightarrow> nat
     \<Rightarrow> options \<Rightarrow> percy \<Rightarrow> percy \<times> string option"
and snapshot_each ::
  "adapter \<Rightarrow> (plain_options \<Rightarrow> string + nat) \<Rightarrow> (nat \<Rightarrow> snapshot_info list) \<Rightarrow> nat
     \<Rightarrow> options list \<Rightarrow> percy \<Rightarrow> percy \<times> string option" where
  "snapshot env validate gather cb opts p =
     (if readyState p \<noteq> Some 1 then (p, Some ''Not running'')
      else (case build_error_set p of
              Some e \<Rightarrow> (p, Some e)
            | None \<Rightarrow>
                (case opts of
                   OArray os \<Rightarrow> snapshot_each env validate gather cb os p
                 | OString s \<Rightarrow>
                     (case validate (if ends_with ''.xml'' s then Sitemap s else PageUrl s) of
                        Inl e \<Rightarrow> (p, Some e)
                      | Inr v \<Rightarrow> (foldl (take_snapshot env cb) p (gather v), None))
                 | OObject n \<Rightarrow>
                     (case validate (Given n) of
                        Inl e \<Rightarrow> (p, Some e)
                      | Inr v \<Rightarrow> (foldl (take_snapshot env cb) p (gather v), None)))))"
| "snapshot_each env validate gather cb [] p = (p, None)"
| "snapshot_each env validate gather cb (x # xs) p =
     (case snapshot env validate gather cb x p of
        (p', Some e) \<Rightarrow> (p', Some e)
      | (p', None) \<Rightarrow> snapshot_each env validate gather cb xs p')"

section \<open>Properties of the queue\<close>

subsection \<open>The two maps stay apart and pending stays within the concurrency\<close>

text \<open>
  The invariant of the queue: the keys of each map are distinct (each is a map), no id is
  a key of both, and \<open>#pending\<close> holds no more tasks than \<open>concurrency\<close>.
\<close>



definition disjoint_maps :: "queue \<Rightarrow> bool" where
  "disjoint_maps q = (\<forall>i. \<not> (map_has i (queued q) \<and> map_has i (pending q)))"

definition keys_ok :: "queue \<Rightarrow> bool" where
  "keys_ok q =
     (distinct (map tid (queued q)) \<and> distinct (map tid (pending q)) \<and> disjoint_maps q)"

definition within_capacity :: "queue \<Rightarrow> bool" where
  "within_capacity q = (int (length (pending q)) \<le> concurrency q)"

definition queue_inv :: "queue \<Rightarrow> bool" where
  "queue_inv q = (keys_ok q \<and> within_capacity q)"

lemma map_delete_keys: "set (map tid (map_delete i ts)) = set (map tid ts) - {i}"
  by (auto simp: map_delete_def)

lemma map_delete_distinct: "distinct (map tid ts) \<Longrightarrow> distinct (map tid (map_delete i ts))"
  by (simp add: map_delete_def distinct_map_filter)

lemma map_delete_length: "length (map_delete i ts) \<le> length ts"
  by (simp add: map_delete_def)

lemma map_set_ids:
  "map tid (map_set t ts) = (if map_has (tid t) ts then map tid ts else map tid ts @ [tid t])"
proof -
  have "map (\<lambda>u. tid (if tid u = tid t then t else u)) ts = map tid ts"
    by (induction ts) auto
  then show ?thesis by (simp add: map_set_def comp_def)
qed

lemma map_set_keys: "set (map tid (map_set t ts)) = insert (tid t) (set (map tid ts))"
  by (auto simp: map_set_ids map_has_def simp del: set_map)

lemma map_set_distinct: "distinct (map tid ts) \<Longrightarrow> distinct (map tid (map_set t ts))"
  by (auto simp: map_set_ids map_has_def simp del: set_map)

lemma map_set_length:
  "length (map_set t ts) = (if map_has (tid t) ts then length ts else Suc (length ts))"
  by (simp add: map_set_def)

lemma promote_inv:
  assumes "queue_inv q" and "t \<in> set (queued q)" and "int (length (pending q)) < concurrency q"
  shows "queue_inv (promote t q)"
proof -
  from assms(1,2) have fresh: "\<not> map_has (tid t) (pending q)"
    by (auto simp: queue_inv_def keys_ok_def disjoint_maps_def map_has_def)
  have "keys_ok (promote t q)"
    using assms(1) 
    by (auto simp: queue_inv_def keys_ok_def disjoint_maps_def promote_def map_has_def
        map_delete_keys map_set_keys map_delete_distinct map_set_distinct simp del: set_map)
  moreover have "within_capacity (promote t q)"
    using assms(3) fresh by (simp add: within_capacity_def promote_def map_set_length)
  ultimately show ?thesis by (simp add: queue_inv_def)
qed

lemma finish_inv: "queue_inv q \<Longrightarrow> queue_inv (finish t out q)"
  using map_delete_length [of "tid t" "pending q"]
  by (auto simp: queue_inv_def keys_ok_def disjoint_maps_def within_capacity_def finish_def
      Let_def map_has_def map_delete_keys map_delete_distinct simp del: set_map)

lemma flag_inv:
  "queue_inv (q\<lparr>running := r\<rparr>) = queue_inv q" "queue_inv (q\<lparr>closed := c\<rparr>) = queue_inv q"
  "queue_inv (q\<lparr>handles := h\<rparr>) = queue_inv q"
  by (simp_all add: queue_inv_def keys_ok_def disjoint_maps_def within_capacity_def)

lemma dequeue_inv: "queue_inv q \<Longrightarrow> queue_inv (dequeue env q)"
proof (rule dequeue_preserves [where P = queue_inv])
  fix q :: queue and t :: task
  assume "queue_inv q" and "queue_next q = Some t"
    and "int (length (pending q)) < concurrency q"
  then show "queue_inv (promote t q)" by (simp add: promote_inv queue_next_queued)
qed (simp_all add: flag_inv finish_inv)

lemma cancel_inv: "queue_inv q \<Longrightarrow> queue_inv (cancel i q)"
  using map_delete_length [of i "pending q"]
  by (auto simp: queue_inv_def keys_ok_def disjoint_maps_def within_capacity_def cancel_def
      Let_def map_has_def map_delete_keys map_delete_distinct simp del: set_map
      split: option.splits)

lemma cancel_removes: "\<not> has i (cancel i q)"
  by (auto simp: has_def cancel_def Let_def map_has_def map_delete_keys simp del: set_map
      split: option.splits)

lemma enqueue_inv:
  assumes "queue_inv q" and "\<not> has (tid t) q"
  shows "queue_inv (q\<lparr>queued := map_set t (queued q), pushes := n\<rparr>)"
  using assms
  by (auto simp: queue_inv_def keys_ok_def disjoint_maps_def within_capacity_def has_def
      map_has_def map_set_keys map_set_distinct simp del: set_map)

lemma push_inv: "queue_inv q \<Longrightarrow> queue_inv (fst (push env i cb p q))"
proof (cases "closed q \<and> \<not> is_sentinel i")
  case True
  assume "queue_inv q"
  with True show ?thesis by (simp add: push_def)
next
  case False
  assume "queue_inv q"
  then have "queue_inv (cancel i q)" by (rule cancel_inv)
  moreover define t where "t = \<lparr>tid = i, callback = cb, priority = p, promise = pushes (cancel i q)\<rparr>"
  moreover have "\<not> has (tid t) (cancel i q)" by (simp add: t_def cancel_removes)
  ultimately have "queue_inv ((cancel i q)\<lparr>queued := map_set t (queued (cancel i q)),
      pushes := Suc (pushes (cancel i q))\<rparr>)"
    by (intro enqueue_inv)
  then have "queue_inv (dequeue env ((cancel i q)\<lparr>queued := map_set t (queued (cancel i q)),
      pushes := Suc (pushes (cancel i q))\<rparr>))"
    by (rule dequeue_inv)
  with False show ?thesis by (auto simp: push_def Let_def t_def)
qed


lemma clear_inv: "queue_inv q \<Longrightarrow> queue_inv (fst (clear q))"
  by (simp add: clear_def Let_def queue_inv_def keys_ok_def disjoint_maps_def
      within_capacity_def map_has_def)

lemma run_loop_inv: "queue_inv q \<Longrightarrow> queue_inv (run_loop env q)"
proof (induction env q rule: run_loop.induct)
  case (1 env q)
  then show ?case by (simp add: run_loop.simps [of env q] dequeue_inv)
qed

lemma apply_op_inv: "queue_inv q \<Longrightarrow> queue_inv (apply_op env q x)"
proof (cases x)
  case (Done p out)
  assume "queue_inv q"
  then show ?thesis
    by (simp add: Done finish_inv dequeue_inv split: option.splits)
qed (simp_all add: push_inv cancel_inv clear_inv run_def run_loop_inv flag_inv stop_def
    open_queue_def close_def flush_def Let_def)

lemma run_ops_inv: "queue_inv q \<Longrightarrow> queue_inv (run_ops env q ops)"
  unfolding run_ops_def
  by (induction ops arbitrary: q) (simp_all add: apply_op_inv)

lemma new_queue_inv: "0 \<le> c \<Longrightarrow> queue_inv (new_queue c)"
  by (simp add: new_queue_def queue_inv_def keys_ok_def disjoint_maps_def
      within_capacity_def map_has_def)


lemma dequeue_concurrency: "concurrency (dequeue env q) = concurrency q"
  by (rule dequeue_preserves [where P = "\<lambda>q'. concurrency q' = concurrency q"])
    (simp_all add: promote_def finish_def Let_def)

lemma run_loop_concurrency: "concurrency (run_loop env q) = concurrency q"
proof (induction env q rule: run_loop.induct)
  case (1 env q)
  then show ?case by (simp add: run_loop.simps [of env q] dequeue_concurrency)
qed

lemma cancel_concurrency: "concurrency (cancel i q) = concurrency q"
  by (simp add: cancel_def Let_def split: option.splits)

lemma push_concurrency: "concurrency (fst (push env i cb p q)) = concurrency q"
  by (simp add: push_def Let_def dequeue_concurrency cancel_concurrency)

lemma apply_op_concurrency: "concurrency (apply_op env q x) = concurrency q"
  by (cases x)
    (simp_all add: push_concurrency cancel_concurrency clear_def Let_def run_def
      run_loop_concurrency stop_def open_queue_def close_def flush_def dequeue_concurrency
      finish_def split: option.splits)

lemma run_ops_concurrency: "concurrency (run_ops env q ops) = concurrency q"
  unfolding run_ops_def
  by (induction ops arbitrary: q) (simp_all add: apply_op_concurrency)

text \<open>
  Claim C3. Start from a new queue whose concurrency is not negative and apply any
  sequence of operations (\<open>push\<close>, \<open>cancel\<close>, \<open>clear\<close>, and also \<open>run\<close>, \<open>stop\<close>, \<open>open\<close>,
  \<open>close\<close>, \<open>flush\<close> and completions of started tasks). After every prefix of the sequence
  no id is in both \<open>#queued\<close> and \<open>#pending\<close>, and \<open>#pending\<close> holds at most \<open>concurrency\<close>
  tasks.
\<close>

theorem maps_disjoint_within_capacity:
  assumes "0 \<le> c"
  shows "disjoint_maps (run_ops env (new_queue c) (take n ops))
       \<and> int (length (pending (run_ops env (new_queue c) (take n ops)))) \<le> c"
proof -
  have "queue_inv (run_ops env (new_queue c) (take n ops))"
    using assms by (intro run_ops_inv new_queue_inv)
  moreover have "concurrency (run_ops env (new_queue c) (take n ops)) = c"
    by (simp add: run_ops_concurrency new_queue_def)
  ultimately show ?thesis
    by (simp add: queue_inv_def keys_ok_def within_capacity_def)
qed

theorem maps_disjoint_within_capacity_witness:
  "(0::int) \<le> 1
   \<and> disjoint_maps (run_ops calm (new_queue 1)
        (take 3 [Push ''a'' 0 Undefined, Push ''b'' 1 (Num 2), Push ''a'' 2 Undefined, Cancel ''b'', Clear]))
   \<and> int (length (pending (run_ops calm (new_queue 1)
        (take 3 [Push ''a'' 0 Undefined, Push ''b'' 1 (Num 2), Push ''a'' 2 Undefined, Cancel ''b'', Clear]))))
       \<le> 1"
  using maps_disjoint_within_capacity [of 1 calm 3
      "[Push ''a'' 0 Undefined, Push ''b'' 1 (Num 2), Push ''a'' 2 Undefined, Cancel ''b'', Clear]"]
  by simp

subsection \<open>The flush barrier\<close>

text \<open>
  \<open>flush\<close> pushes its task under the id \<open>@@/flush\<close> without a priority. A history keeps
  the id for that use when each of its own pushes of that id comes without a priority too.
  Then every queued task with that id has none.
\<close>

definition flush_unranked :: "queue \<Rightarrow> bool" where
  "flush_unranked q = list_all (\<lambda>t. tid t \<noteq> flush_id \<or> priority t = Undefined) (queued q)"

fun plain_flush :: "op \<Rightarrow> bool" where
  "plain_flush (Push i cb p) = (i \<noteq> flush_id \<or> p = Undefined)"
| "plain_flush x = True"

lemma scan_flush_keeps:
  assumes "list_all (\<lambda>t. tid t \<noteq> flush_id \<or> priority t = Undefined) ts"
    and "scan (Some c) ts = Some t" and "tid t = flush_id"
  shows "t = c"
  using assms
proof (induction ts arbitrary: c)
  case Nil
  then show ?case by simp
next
  case (Cons u ts)
  show ?case
  proof (cases "tid u = flush_id")
    case True
    with Cons.prems(1) have "priority u = Undefined" by simp
    then have "\<not> replaces u (Some c)" by (simp add: replaces_def js_less_def)
    with True Cons.prems(2) show ?thesis by simp
  next
    case False
    from Cons.prems(1) have rest: "list_all (\<lambda>t. tid t \<noteq> flush_id \<or> priority t = Undefined) ts"
      by simp
    show ?thesis
    proof (cases "replaces u (Some c)")
      case True
      with False Cons.prems(2) have "scan (Some u) ts = Some t" by simp
      from Cons.IH [OF rest this Cons.prems(3)] have "t = u" .
      with False Cons.prems(3) show ?thesis by simp
    next
      case no: False
      with False Cons.prems(2) have "scan (Some c) ts = Some t" by simp
      from Cons.IH [OF rest this Cons.prems(3)] show ?thesis .
    qed
  qed
qed

lemma next_flush_is_head:
  assumes "flush_unranked q" and "queue_next q = Some t" and "tid t = flush_id"
  shows "\<exists>rest. queued q = t # rest"
proof (cases "queued q")
  case Nil
  with assms(2) show ?thesis by (simp add: queue_next_def)
next
  case (Cons u ts)
  show ?thesis
  proof (cases "tid u = flush_id")
    case True
    with Cons assms(2) show ?thesis by (simp add: queue_next_def replaces_def)
  next
    case False
    from assms(1) Cons
    have rest: "list_all (\<lambda>t. tid t \<noteq> flush_id \<or> priority t = Undefined) ts"
      by (simp add: flush_unranked_def)
    from False Cons assms(2) have "scan (Some u) ts = Some t"
      by (simp add: queue_next_def replaces_def)
    from scan_flush_keeps [OF rest this assms(3)] have "t = u" .
    with Cons show ?thesis by simp
  qed
qed

lemma flush_unranked_subset:
  "flush_unranked q \<Longrightarrow> set (queued q') \<subseteq> set (queued q) \<Longrightarrow> flush_unranked q'"
  by (auto simp: flush_unranked_def list_all_iff)

lemma map_delete_subset: "set (map_delete i ts) \<subseteq> set ts"
  by (auto simp: map_delete_def)

lemma map_set_subset: "set (map_set t ts) \<subseteq> insert t (set ts)"
  by (auto simp: map_set_def)

lemma run_loop_preserves:
  assumes init: "P q" and step: "\<And>q. P q \<Longrightarrow> P (dequeue env q)"
  shows "P (run_loop env q)"
  using assms
proof (induction env q rule: run_loop.induct)
  case (1 env q)
  show ?case
  proof (cases "running q \<and> queued q \<noteq> [] \<and> int (length (pending q)) < concurrency q")
    case True
    from 1(2) have "P (dequeue env q)" by (rule 1(3))
    with True 1(1,3) have "P (run_loop env (dequeue env q))" by simp
    with True show ?thesis by (simp add: run_loop.simps [of env q])
  next
    case False
    with 1(2) show ?thesis by (auto simp: run_loop.simps [of env q])
  qed
qed

lemma dequeue_queued_subset: "set (queued (dequeue env q)) \<subseteq> set (queued q)"
proof (rule dequeue_preserves [where P = "\<lambda>q'. set (queued q') \<subseteq> set (queued q)"])
  fix q' :: queue and t :: task
  assume "set (queued q') \<subseteq> set (queued q)"
  then show "set (queued (promote t q')) \<subseteq> set (queued q)"
    using map_delete_subset [of "tid t" "queued q'"] by (auto simp: promote_def)
next
  fix q' :: queue and t :: task
  assume "set (queued q') \<subseteq> set (queued q)"
  then show "set (queued (finish t (Rejected Failed) q')) \<subseteq> set (queued q)"
    by (simp add: finish_def Let_def)
next
  fix q' :: queue
  assume "set (queued q') \<subseteq> set (queued q)"
  then show "set (queued (q'\<lparr>running := False\<rparr>)) \<subseteq> set (queued q)" by simp
next
  fix q' :: queue and p :: nat
  assume "set (queued q') \<subseteq> set (queued q)"
  then show "set (queued (q'\<lparr>handles := p # handles q'\<rparr>)) \<subseteq> set (queued q)" by simp
next
  show "set (queued q) \<subseteq> set (queued q)" by simp
qed

lemma run_loop_queued_subset: "set (queued (run_loop env q)) \<subseteq> set (queued q)"
proof (rule run_loop_preserves [where P = "\<lambda>q'. set (queued q') \<subseteq> set (queued q)"])
  fix q' :: queue
  assume "set (queued q') \<subseteq> set (queued q)"
  then show "set (queued (dequeue env q')) \<subseteq> set (queued q)"
    using dequeue_queued_subset [of env q'] by auto
next
  show "set (queued q) \<subseteq> set (queued q)" by simp
qed

lemma cancel_queued_subset: "set (queued (cancel i q)) \<subseteq> set (queued q)"
  by (auto simp: cancel_def Let_def map_delete_def split: option.splits)

text \<open>
  The record of promotions is in order when every flush task in it was promoted from the
  head of \<open>#queued\<close>.
\<close>

definition barrier_kept :: "queue \<Rightarrow> bool" where
  "barrier_kept q =
     (flush_unranked q
      \<and> list_all (\<lambda>(t, before). tid t \<noteq> flush_id \<or> take 1 before = [t]) (promotions q))"

lemma barrier_kept_same:
  assumes "barrier_kept q" and "set (queued q') \<subseteq> set (queued q)"
    and "promotions q' = promotions q"
  shows "barrier_kept q'"
  using assms flush_unranked_subset [of q q'] by (simp add: barrier_kept_def)

lemma promote_barrier_kept:
  assumes "barrier_kept q" and "queue_next q = Some t"
  shows "barrier_kept (promote t q)"
proof -
  from assms(1) have fu: "flush_unranked q" by (simp add: barrier_kept_def)
  have "tid t \<noteq> flush_id \<or> take 1 (queued q) = [t]"
  proof (cases "tid t = flush_id")
    case True
    with fu assms(2) obtain rest where "queued q = t # rest"
      using next_flush_is_head by blast
    then show ?thesis by simp
  qed simp
  moreover have "flush_unranked (promote t q)"
  proof (rule flush_unranked_subset [OF fu])
    show "set (queued (promote t q)) \<subseteq> set (queued q)"
      using map_delete_subset [of "tid t" "queued q"] by (simp add: promote_def)
  qed
  ultimately show ?thesis using assms(1) by (simp add: barrier_kept_def promote_def)
qed

lemma dequeue_barrier_kept:
  assumes "barrier_kept q"
  shows "barrier_kept (dequeue env q)"
proof (rule dequeue_preserves [where P = barrier_kept])
  fix q :: queue and t :: task
  assume "barrier_kept q" and "queue_next q = Some t"
  then show "barrier_kept (promote t q)" by (rule promote_barrier_kept)
next
  fix q :: queue and t :: task
  assume "barrier_kept q"
  then show "barrier_kept (finish t (Rejected Failed) q)"
    by (rule barrier_kept_same) (simp_all add: finish_def Let_def)
next
  fix q :: queue
  assume "barrier_kept q"
  then show "barrier_kept (q\<lparr>running := False\<rparr>)" by (rule barrier_kept_same) simp_all
next
  fix q :: queue and p :: nat
  assume "barrier_kept q"
  then show "barrier_kept (q\<lparr>handles := p # handles q\<rparr>)"
    by (rule barrier_kept_same) simp_all
next
  from assms show "barrier_kept q" .
qed

lemma cancel_barrier_kept: "barrier_kept q \<Longrightarrow> barrier_kept (cancel i q)"
  by (erule barrier_kept_same)
    (auto simp: cancel_def Let_def map_delete_def split: option.splits)

lemma push_barrier_kept:
  assumes "barrier_kept q" and "i \<noteq> flush_id \<or> p = Undefined"
  shows "barrier_kept (fst (push env i cb p q))"
proof (cases "closed q \<and> \<not> is_sentinel i")
  case True
  with assms(1) show ?thesis by (simp add: push_def)
next
  case False
  define t where "t = \<lparr>tid = i, callback = cb, priority = p, promise = pushes (cancel i q)\<rparr>"
  define q2 where "q2 = (cancel i q)\<lparr>queued := map_set t (queued (cancel i q)),
      pushes := Suc (pushes (cancel i q))\<rparr>"
  have "barrier_kept (cancel i q)" using assms(1) by (rule cancel_barrier_kept)
  then have "barrier_kept q2"
    using assms(2) map_set_subset [of t "queued (cancel i q)"]
    by (auto simp: barrier_kept_def flush_unranked_def list_all_iff q2_def t_def)
  then have "barrier_kept (dequeue env q2)" by (rule dequeue_barrier_kept)
  with False show ?thesis by (auto simp: push_def Let_def q2_def t_def)
qed

lemma run_barrier_kept:
  assumes "barrier_kept q"
  shows "barrier_kept (run env q)"
  unfolding run_def
proof (rule run_loop_preserves [where P = barrier_kept])
  from assms show "barrier_kept (q\<lparr>running := True\<rparr>)"
    by (simp add: barrier_kept_def flush_unranked_def)
next
  fix q' :: queue
  assume "barrier_kept q'"
  then show "barrier_kept (dequeue env q')" by (rule dequeue_barrier_kept)
qed

lemma apply_op_barrier_kept:
  assumes "barrier_kept q" and "plain_flush x"
  shows "barrier_kept (apply_op env q x)"
proof (cases x)
  case (Push i c p)
  with assms show ?thesis by (simp add: push_barrier_kept)
next
  case (Cancel i)
  with assms(1) show ?thesis by (simp add: cancel_barrier_kept)
next
  case Clear
  with assms(1) show ?thesis by (simp add: clear_def Let_def barrier_kept_def flush_unranked_def)
next
  case Run
  with assms(1) show ?thesis by (simp add: run_barrier_kept)
next
  case Stop
  with assms(1) show ?thesis by (simp add: stop_def barrier_kept_def flush_unranked_def)
next
  case Open
  with assms(1) show ?thesis by (simp add: open_queue_def barrier_kept_def flush_unranked_def)
next
  case (Close abort)
  with assms(1) show ?thesis
    by (simp add: close_def clear_def stop_def Let_def barrier_kept_def flush_unranked_def)
next
  case Flush
  with assms(1) show ?thesis
    by (simp add: flush_def Let_def push_barrier_kept run_barrier_kept)
next
  case (Done p out)
  show ?thesis
  proof (cases "find (\<lambda>t. promise t = p) (started q)")
    case None
    with Done assms(1) show ?thesis by simp
  next
    case (Some t)
    have "barrier_kept (finish t out q)"
      using assms(1) by (rule barrier_kept_same) (simp_all add: finish_def Let_def)
    then have "barrier_kept (dequeue env (finish t out q))" by (rule dequeue_barrier_kept)
    with Done Some assms(1) show ?thesis by simp
  qed
qed

lemma run_ops_barrier_kept:
  "barrier_kept q \<Longrightarrow> list_all plain_flush ops \<Longrightarrow> barrier_kept (run_ops env q ops)"
  unfolding run_ops_def
  by (induction ops arbitrary: q) (simp_all add: apply_op_barrier_kept)

text \<open>The record of promotions lists the started tasks, each once, in order.\<close>

definition log_complete :: "queue \<Rightarrow> bool" where
  "log_complete q = (map fst (promotions q) = started q)"

lemma dequeue_log_complete: "log_complete q \<Longrightarrow> log_complete (dequeue env q)"
  by (rule dequeue_preserves [where P = log_complete])
    (simp_all add: log_complete_def promote_def finish_def Let_def)

lemma cancel_log_complete: "log_complete q \<Longrightarrow> log_complete (cancel i q)"
  by (simp add: log_complete_def cancel_def Let_def split: option.splits)

lemma push_log_complete: "log_complete q \<Longrightarrow> log_complete (fst (push env i cb p q))"
proof (cases "closed q \<and> \<not> is_sentinel i")
  case True
  assume "log_complete q"
  with True show ?thesis by (simp add: push_def)
next
  case False
  assume "log_complete q"
  then have "log_complete (cancel i q)" by (rule cancel_log_complete)
  then have "log_complete ((cancel i q)\<lparr>queued := map_set
      \<lparr>tid = i, callback = cb, priority = p, promise = pushes (cancel i q)\<rparr> (queued (cancel i q)),
      pushes := Suc (pushes (cancel i q))\<rparr>)"
    by (simp add: log_complete_def)
  then have "log_complete (dequeue env ((cancel i q)\<lparr>queued := map_set
      \<lparr>tid = i, callback = cb, priority = p, promise = pushes (cancel i q)\<rparr> (queued (cancel i q)),
      pushes := Suc (pushes (cancel i q))\<rparr>))"
    by (rule dequeue_log_complete)
  with False show ?thesis by (auto simp: push_def Let_def)
qed

lemma run_log_complete:
  assumes "log_complete q"
  shows "log_complete (run env q)"
  unfolding run_def
proof (rule run_loop_preserves [where P = log_complete])
  from assms show "log_complete (q\<lparr>running := True\<rparr>)" by (simp add: log_complete_def)
next
  fix q' :: queue
  assume "log_complete q'"
  then show "log_complete (dequeue env q')" by (rule dequeue_log_complete)
qed

lemma apply_op_log_complete:
  assumes "log_complete q"
  shows "log_complete (apply_op env q x)"
proof (cases x)
  case (Done p out)
  show ?thesis
  proof (cases "find (\<lambda>t. promise t = p) (started q)")
    case None
    with Done assms show ?thesis by simp
  next
    case (Some t)
    from assms have "log_complete (finish t out q)" by (simp add: log_complete_def finish_def Let_def)
    then have "log_complete (dequeue env (finish t out q))" by (rule dequeue_log_complete)
    with Done Some assms show ?thesis by simp
  qed
next
  case Clear
  with assms show ?thesis by (simp add: clear_def Let_def log_complete_def)
next
  case (Close abort)
  with assms show ?thesis by (simp add: close_def clear_def stop_def Let_def log_complete_def)
next
  case Stop
  with assms show ?thesis by (simp add: stop_def log_complete_def)
next
  case Open
  with assms show ?thesis by (simp add: open_queue_def log_complete_def)
qed (use assms in \<open>simp_all add: push_log_complete cancel_log_complete run_log_complete
    flush_def Let_def\<close>)

lemma promotions_list_started:
  "map fst (promotions (run_ops env (new_queue c) ops)) = started (run_ops env (new_queue c) ops)"
proof -
  have "log_complete q \<Longrightarrow> log_complete (run_ops env q ops)" for q
    unfolding run_ops_def by (induction ops arbitrary: q) (simp_all add: apply_op_log_complete)
  moreover have "log_complete (new_queue c)" by (simp add: log_complete_def new_queue_def)
  ultimately show ?thesis by (simp add: log_complete_def)
qed

text \<open>
  Claim C2 as stated fails: \<open>push\<close> accepts the flush id with a priority like any other
  id, and the selection rule then prefers it. On a stopped queue of concurrency 1, after
  \<open>push('a', f)\<close> and \<open>push('@@/flush', g, 0)\<close>, \<open>run()\<close> promotes the flush task while \<open>a\<close>,
  queued before it, is still queued.
\<close>

theorem ranked_flush_overtakes_counterexample:
  "promotions (run_ops calm (new_queue 1)
      [Stop, Push ''a'' 0 Undefined, Push ''@@/flush'' 1 (Num 0), Run])
   = [(\<lparr>tid = ''@@/flush'', callback = Opaque 1, priority = Num 0, promise = 1\<rparr>,
       [\<lparr>tid = ''a'', callback = Opaque 0, priority = Undefined, promise = 0\<rparr>,
        \<lparr>tid = ''@@/flush'', callback = Opaque 1, priority = Num 0, promise = 1\<rparr>])]"
  by code_simp

text \<open>
  Claim C2, amended. Take any state reached from a new queue by a history that pushes the
  id \<open>@@/flush\<close> only without a priority, as \<open>flush()\<close> does. Whenever \<open>_dequeue\<close> promoted
  a flush task, at any moment of that history, the task was the first of \<open>#queued\<close> at that
  moment: no task queued before it was still queued. It may be pending together with a
  task pushed earlier: with concurrency 2, after \<open>push('a')\<close> and \<open>flush()\<close> both are pending.
\<close>

theorem flush_never_overtakes:
  assumes "list_all plain_flush ops"
    and "(t, before) \<in> set (promotions (run_ops env (new_queue c) ops))"
    and "tid t = flush_id"
  shows "(\<exists>rest. before = t # rest)
       \<and> map tid (pending (run_ops calm (new_queue 2) [Push ''a'' 0 Undefined, Flush]))
           = [''a'', flush_id]"
proof
  have "barrier_kept (new_queue c)"
    by (simp add: barrier_kept_def flush_unranked_def new_queue_def)
  then have "barrier_kept (run_ops env (new_queue c) ops)"
    using assms(1) by (rule run_ops_barrier_kept)
  then have "\<forall>x\<in>set (promotions (run_ops env (new_queue c) ops)).
      case x of (t, before) \<Rightarrow> tid t \<noteq> flush_id \<or> take 1 before = [t]"
    by (simp add: barrier_kept_def list_all_iff)
  with assms(2) have "tid t \<noteq> flush_id \<or> take 1 before = [t]" by blast
  with assms(3) have "take 1 before = [t]" by simp
  then show "\<exists>rest. before = t # rest" by (cases before) simp_all
next
  show "map tid (pending (run_ops calm (new_queue 2) [Push ''a'' 0 Undefined, Flush]))
      = [''a'', flush_id]"
    by code_simp
qed

theorem flush_never_overtakes_witness:
  "list_all plain_flush [Push ''a'' 0 Undefined, Push ''b'' 1 (Num 3), Flush, Done 0 Resolved,
       Done 1 Resolved]
   \<and> (\<lparr>tid = flush_id, callback = Restore False, priority = Undefined, promise = 2\<rparr>,
       [\<lparr>tid = flush_id, callback = Restore False, priority = Undefined, promise = 2\<rparr>])
       \<in> set (promotions (run_ops calm (new_queue 1)
           [Push ''a'' 0 Undefined, Push ''b'' 1 (Num 3), Flush, Done 0 Resolved, Done 1 Resolved]))
   \<and> (\<exists>rest. [\<lparr>tid = flush_id, callback = Restore False, priority = Undefined, promise = 2\<rparr>]
         = \<lparr>tid = flush_id, callback = Restore False, priority = Undefined, promise = 2\<rparr> # rest)"
proof -
  have h1: "list_all plain_flush [Push ''a'' 0 Undefined, Push ''b'' 1 (Num 3), Flush,
      Done 0 Resolved, Done 1 Resolved]"
    by (simp add: flush_id_def)
  have h2: "(\<lparr>tid = flush_id, callback = Restore False, priority = Undefined, promise = 2\<rparr>,
       [\<lparr>tid = flush_id, callback = Restore False, priority = Undefined, promise = 2\<rparr>])
       \<in> set (promotions (run_ops calm (new_queue 1)
           [Push ''a'' 0 Undefined, Push ''b'' 1 (Num 3), Flush, Done 0 Resolved, Done 1 Resolved]))"
    by code_simp
  have h3: "tid \<lparr>tid = flush_id, callback = Restore False, priority = Undefined, promise = 2\<rparr>
      = flush_id"
    by simp
  from flush_never_overtakes [OF h1 h2 h3]
  have "\<exists>rest. [\<lparr>tid = flush_id, callback = Restore False, priority = Undefined, promise = 2\<rparr>]
      = \<lparr>tid = flush_id, callback = Restore False, priority = Undefined, promise = 2\<rparr> # rest"
    by (rule conjunct1)
  with h1 h2 show ?thesis by (intro conjI)
qed

subsection \<open>The callback of \<open>flush\<close>, and tasks without a cancel handle\<close>

text \<open>
  A flush on a stopped queue runs what is queued and stops the queue again when its own
  task is promoted: its callback runs inside \<open>_dequeue\<close>.
\<close>

lemma flush_restores_stopped:
  "running (run_ops calm (new_queue 2) [Stop, Push ''a'' 0 Undefined, Flush]) = False
   \<and> map tid (pending (run_ops calm (new_queue 2) [Stop, Push ''a'' 0 Undefined, Flush]))
       = [''a'', flush_id]"
  by code_simp

text \<open>
  The loop of \<open>run()\<close> ends there: a task queued behind such a flush task stays queued.
\<close>

lemma flush_stops_the_loop:
  "map tid (queued (run_ops calm (new_queue 3)
      [Push ''x'' 0 Undefined, Push ''y'' 1 Undefined, Push ''z'' 2 Undefined, Stop, Flush,
       Push ''b'' 3 Undefined, Stop, Done 0 Resolved, Done 1 Resolved, Run])) = [''b'']"
  by code_simp

text \<open>
  A canceled task whose run has no handle is not marked, so when it completes \<open>done\<close>
  deletes its id from \<open>#pending\<close>, where by then a later task of the same id may stand.
\<close>

lemma done_without_handle_deletes_successor:
  "map promise (pending (run_ops bare (new_queue 1)
      [Push ''x'' 0 Undefined, Cancel ''x'', Push ''x'' 1 Undefined])) = [1]
   \<and> pending (run_ops bare (new_queue 1)
      [Push ''x'' 0 Undefined, Cancel ''x'', Push ''x'' 1 Undefined, Done 0 Resolved]) = []"
  by code_simp

subsection \<open>Selection by priority\<close>

text \<open>
  Claim C1. The claim wants a task with a numeric priority selected before a task whose
  priority is \<open>null\<close>, whatever the insertion order. The first disjunct of the selection
  rule does treat \<open>null\<close> as the lowest rank, but the third compares with \<open><\<close>, which reads
  \<open>null\<close> as \<open>0\<close>: on a stopped queue, after \<open>push('a', f, 1)\<close> and \<open>push('b', g, null)\<close>, the
  task selected is \<open>b\<close>.
\<close>

theorem null_priority_overtakes:
  "queue_next (run_ops calm (new_queue 1)
      [Stop, Push ''a'' 0 (Num 1), Push ''b'' 1 Null])
   = Some \<lparr>tid = ''b'', callback = Opaque 1, priority = Null, promise = 1\<rparr>"
  by code_simp

text \<open>
  The same reading of \<open>null\<close> breaks the tie between two \<open>null\<close> priorities in favour of
  the later task.
\<close>

lemma null_priority_breaks_ties:
  "queue_next (run_ops calm (new_queue 1)
      [Stop, Push ''c'' 0 Undefined, Push ''t1'' 1 Null, Push ''u'' 2 (Num 5), Push ''t2'' 3 Null])
   = Some \<lparr>tid = ''t2'', callback = Opaque 3, priority = Null, promise = 3\<rparr>"
  by code_simp

text \<open>
  Where no queued task carries the value \<open>null\<close> (each priority is a number or is left
  out), the rule is a strict order on priorities, and \<open>next()\<close> returns the first of the best
  tasks among those it scans: the tasks up to and including the flush task.
\<close>

definition outranks :: "task \<Rightarrow> task \<Rightarrow> bool" where
  "outranks t c = replaces t (Some c)"

fun scanned :: "task list \<Rightarrow> task list" where
  "scanned [] = []"
| "scanned (t # ts) = (if tid t = flush_id then [t] else t # scanned ts)"

lemma outranks_irrefl: "priority a = priority b \<Longrightarrow> \<not> outranks a b"
  by (cases "priority b") (simp_all add: outranks_def replaces_def js_less_def)

lemma outranks_trans:
  assumes "priority a \<noteq> Null" "priority b \<noteq> Null" "priority c \<noteq> Null"
    and "outranks a b" "outranks b c"
  shows "outranks a c"
  using assms
  by (cases "priority a"; cases "priority b"; cases "priority c")
    (simp_all add: outranks_def replaces_def js_less_def)

lemma outranks_negtrans:
  assumes "priority a \<noteq> Null" "priority b \<noteq> Null" "priority c \<noteq> Null"
    and "\<not> outranks a b" "\<not> outranks b c"
  shows "\<not> outranks a c"
  using assms
  by (cases "priority a"; cases "priority b"; cases "priority c")
    (simp_all add: outranks_def replaces_def js_less_def)

lemma outranks_asym:
  assumes "priority a \<noteq> Null" "priority b \<noteq> Null" "outranks a b"
  shows "\<not> outranks b a"
  using assms
  by (cases "priority a"; cases "priority b")
    (simp_all add: outranks_def replaces_def js_less_def)

lemma scan_first_best:
  assumes "\<forall>u\<in>set ts. priority u \<noteq> Null" and "priority c \<noteq> Null"
    and "scan (Some c) ts = Some r"
  shows "\<not> outranks c r
       \<and> (\<forall>u\<in>set (scanned ts). \<not> outranks u r)
       \<and> (r = c \<or> (r \<in> set (scanned ts) \<and> outranks r c
              \<and> (\<forall>u\<in>set (takeWhile (\<lambda>u. u \<noteq> r) (scanned ts)). outranks r u)))"
  using assms
proof (induction ts arbitrary: c)
  case Nil
  then show ?case by (simp add: outranks_irrefl)
next
  case (Cons v vs)
  from Cons.prems(1) have nv: "priority v \<noteq> Null" and nvs: "\<forall>u\<in>set vs. priority u \<noteq> Null"
    by simp_all
  note nc = Cons.prems(2)
  have nr: "priority r \<noteq> Null"
    using scan_result [OF Cons.prems(3)] Cons.prems(1,2) by auto
  show ?case
  proof (cases "outranks v c")
    case True
    then have nvc: "\<not> outranks c v" using nv nc by (intro outranks_asym)
    show ?thesis
    proof (cases "tid v = flush_id")
      case flush: True
      with True Cons.prems(3) have "r = v" by (simp add: outranks_def)
      with True nvc flush show ?thesis by (simp add: outranks_irrefl)
    next
      case False
      with True Cons.prems(3) have "scan (Some v) vs = Some r" by (simp add: outranks_def)
      from Cons.IH [OF nvs nv this]
      have ih: "\<not> outranks v r" "\<forall>u\<in>set (scanned vs). \<not> outranks u r"
        "r = v \<or> (r \<in> set (scanned vs) \<and> outranks r v
            \<and> (\<forall>u\<in>set (takeWhile (\<lambda>u. u \<noteq> r) (scanned vs)). outranks r u))"
        by simp_all
      have "\<not> outranks c r"
      proof
        assume "outranks c r"
        with True have "outranks v r" using nv nc nr by (intro outranks_trans [of v c r])
        with ih(1) show False by simp
      qed
      moreover have "\<forall>u\<in>set (scanned (v # vs)). \<not> outranks u r"
        using ih(1,2) False by simp
      moreover have "r = c \<or> (r \<in> set (scanned (v # vs)) \<and> outranks r c
          \<and> (\<forall>u\<in>set (takeWhile (\<lambda>u. u \<noteq> r) (scanned (v # vs))). outranks r u))"
      proof (cases "r = v")
        case True
        with \<open>outranks v c\<close> False show ?thesis by simp
      next
        case neq: False
        with ih(3) have r: "r \<in> set (scanned vs)" "outranks r v"
          "\<forall>u\<in>set (takeWhile (\<lambda>u. u \<noteq> r) (scanned vs)). outranks r u"
          by simp_all
        from r(2) True have "outranks r c" using nr nv nc by (intro outranks_trans [of r v c])
        with r neq False show ?thesis by auto
      qed
      ultimately show ?thesis by blast
    qed
  next
    case keep: False
    show ?thesis
    proof (cases "tid v = flush_id")
      case True
      with keep Cons.prems(3) have "r = c" by (simp add: outranks_def)
      with keep True show ?thesis by (simp add: outranks_irrefl)
    next
      case False
      with keep Cons.prems(3) have "scan (Some c) vs = Some r" by (simp add: outranks_def)
      from Cons.IH [OF nvs nc this]
      have ih: "\<not> outranks c r" "\<forall>u\<in>set (scanned vs). \<not> outranks u r"
        "r = c \<or> (r \<in> set (scanned vs) \<and> outranks r c
            \<and> (\<forall>u\<in>set (takeWhile (\<lambda>u. u \<noteq> r) (scanned vs)). outranks r u))"
        by simp_all
      have vr: "\<not> outranks v r"
        using nv nc nr keep ih(1) by (intro outranks_negtrans [of v c r])
      have "\<forall>u\<in>set (scanned (v # vs)). \<not> outranks u r"
        using vr ih(2) False by simp
      moreover have "r = c \<or> (r \<in> set (scanned (v # vs)) \<and> outranks r c
          \<and> (\<forall>u\<in>set (takeWhile (\<lambda>u. u \<noteq> r) (scanned (v # vs))). outranks r u))"
      proof (cases "r = c")
        case True
        then show ?thesis by simp
      next
        case neq: False
        with ih(3) have r: "r \<in> set (scanned vs)" "outranks r c"
          "\<forall>u\<in>set (takeWhile (\<lambda>u. u \<noteq> r) (scanned vs)). outranks r u"
          by simp_all
        have "outranks r v"
        proof (rule ccontr)
          assume "\<not> outranks r v"
          then have "\<not> outranks r c" using nr nv nc keep by (intro outranks_negtrans [of r v c])
          with r(2) show False by simp
        qed
        with r False show ?thesis by auto
      qed
      ultimately show ?thesis using ih(1) by blast
    qed
  qed
qed

lemma next_first_best:
  assumes "\<forall>u\<in>set (queued q). priority u \<noteq> Null" and "queue_next q = Some r"
  shows "r \<in> set (scanned (queued q))
       \<and> (\<forall>u\<in>set (scanned (queued q)). \<not> outranks u r)
       \<and> (\<forall>u\<in>set (takeWhile (\<lambda>u. u \<noteq> r) (scanned (queued q))). outranks r u)"
proof (cases "queued q")
  case Nil
  with assms(2) show ?thesis by (simp add: queue_next_def)
next
  case (Cons v vs)
  from assms(1) Cons have nv: "priority v \<noteq> Null" and nvs: "\<forall>u\<in>set vs. priority u \<noteq> Null"
    by simp_all
  show ?thesis
  proof (cases "tid v = flush_id")
    case True
    with Cons assms(2) have "r = v" by (simp add: queue_next_def replaces_def)
    with Cons True show ?thesis by (simp add: outranks_irrefl)
  next
    case False
    with Cons assms(2) have "scan (Some v) vs = Some r"
      by (simp add: queue_next_def replaces_def)
    from scan_first_best [OF nvs nv this] Cons False show ?thesis by auto
  qed
qed

text \<open>
  So there a task with a numeric priority in the scanned part keeps every task without a
  priority from being selected, and of two tasks of equal priority the later is not
  selected while the earlier is queued.
\<close>

lemma next_prefers_numeric:
  assumes "\<forall>u\<in>set (queued q). priority u \<noteq> Null"
    and "a \<in> set (scanned (queued q))" and "priority a = Num n" and "priority b = Undefined"
  shows "queue_next q \<noteq> Some b"
proof
  assume "queue_next q = Some b"
  from next_first_best [OF assms(1) this] assms(2) have "\<not> outranks a b" by simp
  with assms(3,4) show False by (simp add: outranks_def replaces_def)
qed

lemma next_stable:
  assumes "\<forall>u\<in>set (queued q). priority u \<noteq> Null"
    and "a \<in> set (takeWhile (\<lambda>u. u \<noteq> b) (scanned (queued q)))"
    and "priority a = priority b"
  shows "queue_next q \<noteq> Some b"
proof
  assume "queue_next q = Some b"
  from next_first_best [OF assms(1) this] assms(2) have "outranks b a" by simp
  with assms(3) show False using outranks_irrefl [of b a] by simp
qed

subsection \<open>Pushing onto a closed queue\<close>

lemma dequeue_keeps_task:
  assumes "\<forall>u\<in>set (queued q). tid u = tid t \<longrightarrow> u = t"
    and "t \<in> set (queued q) \<or> t \<in> set (started q)"
  shows "t \<in> set (queued (dequeue env q)) \<or> t \<in> set (started (dequeue env q))"
proof -
  let ?P = "\<lambda>q'. (\<forall>u\<in>set (queued q'). tid u = tid t \<longrightarrow> u = t)
      \<and> (t \<in> set (queued q') \<or> t \<in> set (started q'))"
  have "?P (dequeue env q)"
  proof (rule dequeue_preserves [where P = ?P])
    fix q' :: queue and u :: task
    assume p: "?P q'" and "queue_next q' = Some u"
    then have "u \<in> set (queued q')" by (simp add: queue_next_queued)
    with p show "?P (promote u q')"
      by (auto simp: promote_def map_delete_def)
  next
    fix q' :: queue and u :: task
    assume "?P q'"
    then show "?P (finish u (Rejected Failed) q')"
      by (simp add: finish_def Let_def)
  next
    fix q' :: queue
    assume "?P q'"
    then show "?P (q'\<lparr>running := False\<rparr>)" by simp
  next
    fix q' :: queue and p :: nat
    assume "?P q'"
    then show "?P (q'\<lparr>handles := p # handles q'\<rparr>)" by simp
  next
    from assms show "?P q" by simp
  qed
  then show ?thesis by simp
qed

lemma cancel_pushes: "pushes (cancel i q) = pushes q"
  by (simp add: cancel_def Let_def split: option.splits)

text \<open>
  Claim C5 as stated fails: \<open>build/create\<close> does not begin with \<open>@@/\<close>, and on a closed queue
  its push is dropped.
\<close>

theorem closed_drops_build_create_counterexample:
  "push calm ''build/create'' (Opaque 0) (Num 0) (close False (new_queue 10))
     = (close False (new_queue 10), None)"
  by code_simp

text \<open>
  Claim C5, amended. On a closed queue a push whose id begins with \<open>@@/\<close> returns the
  promise of the new task, and the task is queued or already started; a push with any
  other id returns nothing and leaves the queue as it was.
\<close>

theorem closed_push_sentinel_only:
  assumes "closed q"
  shows "(is_sentinel i \<longrightarrow>
            snd (push env i cb p q) = Some (pushes q)
            \<and> (\<lparr>tid = i, callback = cb, priority = p, promise = pushes q\<rparr>
                  \<in> set (queued (fst (push env i cb p q)))
                      \<union> set (started (fst (push env i cb p q)))))
       \<and> (\<not> is_sentinel i \<longrightarrow> push env i cb p q = (q, None))"
proof (intro conjI impI)
  assume s: "is_sentinel i"
  define t where "t = \<lparr>tid = i, callback = cb, priority = p, promise = pushes q\<rparr>"
  define q2 where "q2 = (cancel i q)\<lparr>queued := map_set t (queued (cancel i q)),
      pushes := Suc (pushes (cancel i q))\<rparr>"
  have result: "push env i cb p q = (dequeue env q2, Some (pushes q))"
    using s by (simp add: push_def Let_def q2_def t_def cancel_pushes)
  then show "snd (push env i cb p q) = Some (pushes q)" by simp
  have absent: "\<not> map_has i (queued (cancel i q))"
    using cancel_removes [of i q] by (simp add: has_def)
  then have "queued q2 = queued (cancel i q) @ [t]"
    by (simp add: q2_def map_set_def t_def)
  with absent have "\<forall>u\<in>set (queued q2). tid u = tid t \<longrightarrow> u = t" and "t \<in> set (queued q2)"
    by (auto simp: map_has_def t_def)
  then have "t \<in> set (queued (dequeue env q2)) \<or> t \<in> set (started (dequeue env q2))"
    by (intro dequeue_keeps_task) simp_all
  with result show "\<lparr>tid = i, callback = cb, priority = p, promise = pushes q\<rparr>
      \<in> set (queued (fst (push env i cb p q))) \<union> set (started (fst (push env i cb p q)))"
    by (simp add: t_def)
next
  assume "\<not> is_sentinel i"
  with assms show "push env i cb p q = (q, None)" by (simp add: push_def)
qed

theorem closed_push_sentinel_only_witness:
  "closed (close False (new_queue 10))
   \<and> is_sentinel ''@@/flush'' \<and> \<not> is_sentinel ''upload/home''
   \<and> snd (push calm ''@@/flush'' (Opaque 0) Undefined (close False (new_queue 10))) = Some 0
   \<and> push calm ''upload/home'' (Opaque 0) Undefined (close False (new_queue 10))
       = (close False (new_queue 10), None)"
proof -
  have h: "closed (close False (new_queue 10))" by (simp add: close_def)
  have s: "is_sentinel ''@@/flush''" "\<not> is_sentinel ''upload/home''"
    by (simp_all add: is_sentinel_def)
  have z: "pushes (close False (new_queue 10)) = 0" by (simp add: close_def new_queue_def)
  from closed_push_sentinel_only [OF h, of "''@@/flush''" calm "Opaque 0" Undefined]
    closed_push_sentinel_only [OF h, of "''upload/home''" calm "Opaque 0" Undefined] h s z
  show ?thesis by simp
qed

subsection \<open>\<open>clear\<close>\<close>

text \<open>
  Claim C6 as stated fails: on a stopped queue holding one queued task \<open>clear()\<close> returns
  \<open>0\<close>, not the size \<open>1\<close> the queue had before the call.
\<close>

theorem clear_returns_prior_size_counterexample:
  "snd (clear (run_ops calm (new_queue 1) [Stop, Push ''a'' 0 Undefined]))
     \<noteq> queue_size (run_ops calm (new_queue 1) [Stop, Push ''a'' 0 Undefined])"
  by code_simp

text \<open>
  Claim C6, amended. \<open>clear()\<close> empties \<open>#queued\<close>, leaves \<open>#pending\<close> as it is, and returns
  the size after the clearing, which is the number of pending tasks.
\<close>

theorem clear_empties_queued:
  "queued (fst (clear q)) = [] \<and> pending (fst (clear q)) = pending q
   \<and> snd (clear q) = length (pending q)"
  by (simp add: clear_def Let_def queue_size_def)

subsection \<open>The progress count of \<open>flush\<close>\<close>

lemma index_of_position:
  "index_of x ys = (if x \<in> set ys then int (length (takeWhile (\<lambda>y. y \<noteq> x) ys)) else - 1)"
  by (induction ys) (auto simp: Let_def)

text \<open>
  Claim C7 as stated fails: when the flush task is pending the count is not the number of
  pending tasks plus \<open>0\<close>. With concurrency 1, after \<open>flush()\<close> on a new queue the flush
  task is the one pending task and the callback receives \<open>0\<close>.
\<close>

theorem flush_poll_pending_counterexample:
  "map_has flush_id (pending (run_ops calm (new_queue 1) [Flush]))
   \<and> flush_poll (run_ops calm (new_queue 1) [Flush])
       \<noteq> idle_poll (run_ops calm (new_queue 1) [Flush]) + 0"
  by code_simp

text \<open>
  Claim C7, amended. On a poll the callback of \<open>flush\<close> receives the number of pending
  tasks plus: the number of tasks queued ahead of the flush task (its index) while it is
  queued; \<open>-1\<close> once it is pending, so that the flush task does not count itself; \<open>0\<close> when
  it is in neither map.
\<close>

theorem flush_poll_value:
  "flush_poll q =
     int (length (pending q))
     + (if map_has flush_id (queued q)
        then int (length (takeWhile (\<lambda>t. tid t \<noteq> flush_id) (queued q)))
        else if map_has flush_id (pending q) then - 1 else 0)"
proof -
  have "length (takeWhile (\<lambda>y. y \<noteq> flush_id) (map tid (queued q)))
      = length (takeWhile (\<lambda>t. tid t \<noteq> flush_id) (queued q))"
    by (simp add: takeWhile_map comp_def)
  then show ?thesis
    by (simp add: flush_poll_def flush_left_def idle_poll_def Let_def index_of_position map_has_def)
qed

subsection \<open>What \<open>cancel\<close> does to a task and its promise\<close>

text \<open>
  The bookkeeping of promises. Every promise of a queued or started task was handed out by
  an earlier push; queued tasks have distinct promises, started tasks too, and no queued
  task was started; only started tasks are settled or have their cancel handle called, and
  every pending task was started.
\<close>

definition promises_ok :: "queue \<Rightarrow> bool" where
  "promises_ok q =
     ((\<forall>t\<in>set (queued q). promise t < pushes q)
      \<and> (\<forall>t\<in>set (started q). promise t < pushes q)
      \<and> distinct (map promise (queued q))
      \<and> distinct (map promise (started q))
      \<and> (\<forall>t\<in>set (queued q). \<forall>u\<in>set (started q). promise t \<noteq> promise u)
      \<and> fst ` set (settled q) \<subseteq> promise ` set (started q)
      \<and> set (triggered q) \<subseteq> promise ` set (started q)
      \<and> set (pending q) \<subseteq> set (started q))"

definition unstarted :: "nat \<Rightarrow> queue \<Rightarrow> bool" where
  "unstarted p q =
     (p < pushes q \<and> p \<notin> promise ` set (queued q) \<and> p \<notin> promise ` set (started q))"

lemma map_delete_promises:
  "distinct (map promise ts) \<Longrightarrow> distinct (map promise (map_delete i ts))"
  by (simp add: map_delete_def distinct_map_filter)

lemma map_delete_drops_promise:
  assumes "distinct (map promise ts)" and "t \<in> set ts"
  shows "\<forall>u\<in>set (map_delete (tid t) ts). promise u \<noteq> promise t"
proof (intro ballI notI)
  fix u
  assume "u \<in> set (map_delete (tid t) ts)" and same: "promise u = promise t"
  then have u: "u \<in> set ts" "tid u \<noteq> tid t" by (auto simp: map_delete_def)
  from assms(1) have "inj_on promise (set ts)" by (simp add: distinct_map)
  with u(1) same assms(2) have "u = t" by (auto dest: inj_onD)
  with u(2) show False by simp
qed

lemma promote_promises_ok:
  assumes "promises_ok q" and "t \<in> set (queued q)"
  shows "promises_ok (promote t q)"
proof -
  have sub: "set (map_delete (tid t) (queued q)) \<subseteq> set (queued q)" by (rule map_delete_subset)
  have gone: "\<forall>u\<in>set (map_delete (tid t) (queued q)). promise u \<noteq> promise t"
    using assms by (intro map_delete_drops_promise) (simp_all add: promises_ok_def)
  have fresh: "promise t \<notin> promise ` set (started q)"
    using assms by (auto simp: promises_ok_def)
  have pend: "set (map_set t (pending q)) \<subseteq> insert t (set (pending q))" by (rule map_set_subset)
  have "\<forall>u\<in>set (queued (promote t q)). promise u < pushes (promote t q)"
    using assms(1) sub by (auto simp: promises_ok_def promote_def)
  moreover have "\<forall>u\<in>set (started (promote t q)). promise u < pushes (promote t q)"
    using assms by (auto simp: promises_ok_def promote_def)
  moreover have "distinct (map promise (queued (promote t q)))"
    using assms(1) by (simp add: promises_ok_def promote_def map_delete_promises)
  moreover have "distinct (map promise (started (promote t q)))"
    using assms(1) fresh by (simp add: promises_ok_def promote_def)
  moreover have "\<forall>u\<in>set (queued (promote t q)). \<forall>v\<in>set (started (promote t q)).
      promise u \<noteq> promise v"
    using assms(1) sub gone by (auto simp: promises_ok_def promote_def)
  moreover have "fst ` set (settled (promote t q)) \<subseteq> promise ` set (started (promote t q))"
    using assms(1) by (auto simp: promises_ok_def promote_def)
  moreover have "set (triggered (promote t q)) \<subseteq> promise ` set (started (promote t q))"
    using assms(1) by (auto simp: promises_ok_def promote_def)
  moreover have "set (pending (promote t q)) \<subseteq> set (started (promote t q))"
    using assms(1) pend by (auto simp: promises_ok_def promote_def)
  ultimately show ?thesis unfolding promises_ok_def by blast
qed

lemma finish_promises_ok:
  assumes "promises_ok q" and "t \<in> set (started q)"
  shows "promises_ok (finish t out q)"
proof -
  have "set (map_delete (tid t) (pending q)) \<subseteq> set (pending q)" by (rule map_delete_subset)
  with assms show ?thesis
    by (auto simp: promises_ok_def finish_def Let_def)
qed

lemma flag_promises_ok:
  "promises_ok (q\<lparr>running := r\<rparr>) = promises_ok q" "promises_ok (q\<lparr>closed := c\<rparr>) = promises_ok q"
  "promises_ok (q\<lparr>handles := h\<rparr>) = promises_ok q"
  by (simp_all add: promises_ok_def)

lemma dequeue_promises_ok:
  assumes "promises_ok q"
  shows "promises_ok (dequeue env q)"
proof (rule dequeue_preserves [where P = promises_ok])
  fix q :: queue and t :: task
  assume "promises_ok q" and "queue_next q = Some t"
  then show "promises_ok (promote t q)"
    by (simp add: promote_promises_ok queue_next_queued)
next
  fix q :: queue and t :: task
  assume "promises_ok q" and "t \<in> set (started q)"
  then show "promises_ok (finish t (Rejected Failed) q)" by (rule finish_promises_ok)
next
  fix q :: queue
  assume "promises_ok q"
  then show "promises_ok (q\<lparr>running := False\<rparr>)" by (simp add: flag_promises_ok)
next
  fix q :: queue and p :: nat
  assume "promises_ok q"
  then show "promises_ok (q\<lparr>handles := p # handles q\<rparr>)" by (simp add: flag_promises_ok)
next
  from assms show "promises_ok q" .
qed

lemma cancel_promises_ok:
  assumes "promises_ok q"
  shows "promises_ok (cancel i q)"
proof -
  have q: "set (map_delete i (queued q)) \<subseteq> set (queued q)"
    and p: "set (map_delete i (pending q)) \<subseteq> set (pending q)"
    by (rule map_delete_subset)+
  have trig: "set (triggered (cancel i q)) \<subseteq> promise ` set (started q)"
  proof (cases "map_get i (pending q)")
    case None
    with assms show ?thesis by (simp add: cancel_def promises_ok_def)
  next
    case (Some t)
    then have "t \<in> set (pending q)"
      by (auto simp: map_get_def find_Some_iff)
    with assms have "promise t \<in> promise ` set (started q)" by (auto simp: promises_ok_def)
    with assms Some show ?thesis by (auto simp: cancel_def promises_ok_def)
  qed
  have same: "queued (cancel i q) = map_delete i (queued q)"
    "pending (cancel i q) = map_delete i (pending q)"
    "started (cancel i q) = started q" "settled (cancel i q) = settled q"
    "pushes (cancel i q) = pushes q"
    by (simp_all add: cancel_def Let_def split: option.splits)
  show ?thesis
    unfolding promises_ok_def same
    using assms q p trig
    by (auto simp: promises_ok_def map_delete_promises)
qed


lemma enqueue_promises_ok:
  assumes "promises_ok q" and "\<not> map_has (tid t) (queued q)" and "promise t = pushes q"
  shows "promises_ok (q\<lparr>queued := map_set t (queued q), pushes := Suc (pushes q)\<rparr>)"
proof -
  from assms(2) have "queued (q\<lparr>queued := map_set t (queued q), pushes := Suc (pushes q)\<rparr>)
      = queued q @ [t]"
    by (simp add: map_set_def)
  with assms(1,3) show ?thesis
    by (fastforce simp: promises_ok_def)
qed

lemma cancel_removes_queued: "\<not> map_has i (queued (cancel i q))"
  using cancel_removes [of i q] by (simp add: has_def)

lemma push_promises_ok:
  assumes "promises_ok q"
  shows "promises_ok (fst (push env i cb p q))"
proof (cases "closed q \<and> \<not> is_sentinel i")
  case True
  with assms show ?thesis by (simp add: push_def)
next
  case False
  define t where "t = \<lparr>tid = i, callback = cb, priority = p, promise = pushes (cancel i q)\<rparr>"
  have "promises_ok (cancel i q)" using assms by (rule cancel_promises_ok)
  then have "promises_ok ((cancel i q)\<lparr>queued := map_set t (queued (cancel i q)),
      pushes := Suc (pushes (cancel i q))\<rparr>)"
    by (rule enqueue_promises_ok) (simp_all add: t_def cancel_removes_queued)
  then have "promises_ok (dequeue env ((cancel i q)\<lparr>queued := map_set t (queued (cancel i q)),
      pushes := Suc (pushes (cancel i q))\<rparr>))"
    by (rule dequeue_promises_ok)
  with False show ?thesis by (auto simp: push_def Let_def t_def)
qed

lemma clear_promises_ok: "promises_ok q \<Longrightarrow> promises_ok (fst (clear q))"
  by (simp add: clear_def Let_def promises_ok_def)

lemma run_promises_ok:
  assumes "promises_ok q"
  shows "promises_ok (run env q)"
  unfolding run_def
proof (rule run_loop_preserves [where P = promises_ok])
  from assms show "promises_ok (q\<lparr>running := True\<rparr>)" by (simp add: flag_promises_ok)
next
  fix q' :: queue
  assume "promises_ok q'"
  then show "promises_ok (dequeue env q')" by (rule dequeue_promises_ok)
qed

lemma apply_op_promises_ok:
  assumes "promises_ok q"
  shows "promises_ok (apply_op env q x)"
proof (cases x)
  case (Done p out)
  show ?thesis
  proof (cases "find (\<lambda>t. promise t = p) (started q)")
    case None
    with Done assms show ?thesis by simp
  next
    case (Some t)
    then have "t \<in> set (started q)" by (auto simp: find_Some_iff)
    with assms have "promises_ok (finish t out q)" by (intro finish_promises_ok)
    then have "promises_ok (dequeue env (finish t out q))" by (rule dequeue_promises_ok)
    with Done Some assms show ?thesis by simp
  qed
qed (use assms in \<open>simp_all add: push_promises_ok cancel_promises_ok clear_promises_ok
    run_promises_ok flag_promises_ok stop_def open_queue_def close_def flush_def Let_def\<close>)

lemma run_ops_promises_ok: "promises_ok q \<Longrightarrow> promises_ok (run_ops env q ops)"
  unfolding run_ops_def
  by (induction ops arbitrary: q) (simp_all add: apply_op_promises_ok)

lemma new_queue_promises_ok: "promises_ok (new_queue c)"
  by (simp add: promises_ok_def new_queue_def)

text \<open>
  A promise is unstarted when it has been handed out but its task is neither queued nor
  was ever started. No operation changes that.
\<close>

lemma promote_unstarted:
  assumes "unstarted p q" and "t \<in> set (queued q)"
  shows "unstarted p (promote t q)"
  using assms map_delete_subset [of "tid t" "queued q"]
  by (auto simp: unstarted_def promote_def)

lemma flag_unstarted:
  "unstarted p (q\<lparr>running := r\<rparr>) = unstarted p q" "unstarted p (q\<lparr>closed := c\<rparr>) = unstarted p q"
  "unstarted p (q\<lparr>handles := h\<rparr>) = unstarted p q"
  by (simp_all add: unstarted_def)

lemma dequeue_unstarted:
  assumes "unstarted p q"
  shows "unstarted p (dequeue env q)"
proof (rule dequeue_preserves [where P = "unstarted p"])
  fix q :: queue and t :: task
  assume "unstarted p q" and "queue_next q = Some t"
  then show "unstarted p (promote t q)"
    by (simp add: promote_unstarted queue_next_queued)
next
  fix q :: queue and t :: task
  assume "unstarted p q"
  then show "unstarted p (finish t (Rejected Failed) q)"
    by (simp add: unstarted_def finish_def Let_def)
next
  fix q :: queue
  assume "unstarted p q"
  then show "unstarted p (q\<lparr>running := False\<rparr>)" by (simp add: flag_unstarted)
next
  fix q :: queue and h :: nat
  assume "unstarted p q"
  then show "unstarted p (q\<lparr>handles := h # handles q\<rparr>)" by (simp add: flag_unstarted)
next
  from assms show "unstarted p q" .
qed

lemma cancel_unstarted: "unstarted p q \<Longrightarrow> unstarted p (cancel i q)"
  using map_delete_subset [of i "queued q"]
  by (auto simp: unstarted_def cancel_def Let_def split: option.splits)

lemma push_after_cancel_unstarted:
  assumes "\<not> (closed q \<and> \<not> is_sentinel i)" and c: "unstarted p (cancel i q)"
  shows "unstarted p (fst (push env i cb pr q))"
proof -
  define t where "t = \<lparr>tid = i, callback = cb, priority = pr, promise = pushes (cancel i q)\<rparr>"
  have "set (map_set t (queued (cancel i q))) \<subseteq> insert t (set (queued (cancel i q)))"
    by (rule map_set_subset)
  with c have "unstarted p ((cancel i q)\<lparr>queued := map_set t (queued (cancel i q)),
      pushes := Suc (pushes (cancel i q))\<rparr>)"
    by (auto simp: unstarted_def t_def)
  then have "unstarted p (dequeue env ((cancel i q)\<lparr>queued := map_set t (queued (cancel i q)),
      pushes := Suc (pushes (cancel i q))\<rparr>))"
    by (rule dequeue_unstarted)
  with assms(1) show ?thesis by (auto simp: push_def Let_def t_def)
qed

lemma push_unstarted:
  assumes "unstarted p q"
  shows "unstarted p (fst (push env i cb pr q))"
proof (cases "closed q \<and> \<not> is_sentinel i")
  case True
  with assms show ?thesis by (simp add: push_def)
next
  case False
  then show ?thesis using assms by (intro push_after_cancel_unstarted cancel_unstarted)
qed

lemma run_unstarted:
  assumes "unstarted p q"
  shows "unstarted p (run env q)"
  unfolding run_def
proof (rule run_loop_preserves [where P = "unstarted p"])
  from assms show "unstarted p (q\<lparr>running := True\<rparr>)" by (simp add: flag_unstarted)
next
  fix q' :: queue
  assume "unstarted p q'"
  then show "unstarted p (dequeue env q')" by (rule dequeue_unstarted)
qed

lemma apply_op_unstarted:
  assumes "unstarted p q"
  shows "unstarted p (apply_op env q x)"
proof (cases x)
  case (Done p' out)
  show ?thesis
  proof (cases "find (\<lambda>t. promise t = p') (started q)")
    case None
    with Done assms show ?thesis by simp
  next
    case (Some t)
    from assms have "unstarted p (finish t out q)"
      by (simp add: unstarted_def finish_def Let_def)
    then have "unstarted p (dequeue env (finish t out q))" by (rule dequeue_unstarted)
    with Done Some assms show ?thesis by simp
  qed
next
  case Clear
  with assms show ?thesis by (simp add: clear_def Let_def unstarted_def)
next
  case (Close abort)
  with assms show ?thesis by (simp add: close_def clear_def stop_def Let_def unstarted_def)
qed (use assms in \<open>simp_all add: push_unstarted cancel_unstarted run_unstarted flag_unstarted
    stop_def open_queue_def flush_def Let_def\<close>)

lemma run_ops_unstarted: "unstarted p q \<Longrightarrow> unstarted p (run_ops env q ops)"
  unfolding run_ops_def
  by (induction ops arbitrary: q) (simp_all add: apply_op_unstarted)

lemma unstarted_never_settled:
  assumes "promises_ok q" and "unstarted p q"
  shows "p \<notin> set (map promise (started (run_ops env q ops)))
       \<and> p \<notin> set (triggered (run_ops env q ops))
       \<and> p \<notin> set (map fst (settled (run_ops env q ops)))"
proof -
  have "promises_ok (run_ops env q ops)" using assms(1) by (rule run_ops_promises_ok)
  moreover have "unstarted p (run_ops env q ops)" using assms(2) by (rule run_ops_unstarted)
  ultimately show ?thesis by (auto simp: promises_ok_def unstarted_def)
qed

lemma dequeue_triggered: "triggered (dequeue env q) = triggered q"
  by (rule dequeue_preserves [where P = "\<lambda>q'. triggered q' = triggered q"])
    (simp_all add: promote_def finish_def Let_def)

lemma push_triggered:
  "\<not> (closed q \<and> \<not> is_sentinel i) \<Longrightarrow>
     triggered (fst (push env i cb p q)) = triggered (cancel i q)"
  by (auto simp: push_def Let_def dequeue_triggered)

lemma cancel_queued_unstarted:
  assumes "promises_ok q" and "map_get i (queued q) = Some t"
  shows "unstarted (promise t) (cancel i q)"
proof -
  from assms(2) have t: "t \<in> set (queued q)" "tid t = i"
    by (auto simp: map_get_def find_Some_iff)
  have same: "queued (cancel i q) = map_delete i (queued q)" "started (cancel i q) = started q"
    "pushes (cancel i q) = pushes q"
    by (simp_all add: cancel_def Let_def split: option.splits)
  from assms(1) t(1) have "\<forall>u\<in>set (map_delete (tid t) (queued q)). promise u \<noteq> promise t"
    by (intro map_delete_drops_promise) (simp_all add: promises_ok_def)
  with assms(1) t show ?thesis
    unfolding unstarted_def same by (auto simp: promises_ok_def)
qed


lemma cancel_settles_nothing: "settled (cancel i q) = settled q"
  by (simp add: cancel_def Let_def split: option.splits)

lemma cancel_calls_handle:
  "triggered (cancel i q) =
     (case map_get i (pending q) of
        None \<Rightarrow> triggered q
      | Some t \<Rightarrow> if promise t \<in> set (handles q) then List.insert (promise t) (triggered q)
                  else triggered q)"
  by (simp add: cancel_def Let_def split: option.splits)

lemma dequeue_absent:
  assumes "t \<notin> set (queued q) \<and> t \<notin> set (pending q)"
  shows "t \<notin> set (queued (dequeue env q)) \<and> t \<notin> set (pending (dequeue env q))"
proof (rule dequeue_preserves [where P = "\<lambda>q'. t \<notin> set (queued q') \<and> t \<notin> set (pending q')"])
  fix q' :: queue and u :: task
  assume absent: "t \<notin> set (queued q') \<and> t \<notin> set (pending q')" and "queue_next q' = Some u"
  then have "u \<in> set (queued q')" by (simp add: queue_next_queued)
  with absent have "u \<noteq> t" by auto
  with absent map_delete_subset [of "tid u" "queued q'"] map_set_subset [of u "pending q'"]
  show "t \<notin> set (queued (promote u q')) \<and> t \<notin> set (pending (promote u q'))"
    by (auto simp: promote_def)
next
  fix q' :: queue and u :: task
  assume "t \<notin> set (queued q') \<and> t \<notin> set (pending q')"
  with map_delete_subset [of "tid u" "pending q'"]
  show "t \<notin> set (queued (finish u (Rejected Failed) q'))
      \<and> t \<notin> set (pending (finish u (Rejected Failed) q'))"
    by (auto simp: finish_def Let_def)
next
  fix q' :: queue
  assume "t \<notin> set (queued q') \<and> t \<notin> set (pending q')"
  then show "t \<notin> set (queued (q'\<lparr>running := False\<rparr>)) \<and> t \<notin> set (pending (q'\<lparr>running := False\<rparr>))"
    by simp
next
  fix q' :: queue and h :: nat
  assume "t \<notin> set (queued q') \<and> t \<notin> set (pending q')"
  then show "t \<notin> set (queued (q'\<lparr>handles := h # handles q'\<rparr>))
      \<and> t \<notin> set (pending (q'\<lparr>handles := h # handles q'\<rparr>))"
    by simp
next
  from assms show "t \<notin> set (queued q) \<and> t \<notin> set (pending q)" .
qed

lemma push_removes_previous:
  assumes "\<not> (closed q \<and> \<not> is_sentinel i)" and "tid t = i" and "promise t < pushes q"
  shows "t \<notin> set (queued (fst (push env i cb p q))) \<and> t \<notin> set (pending (fst (push env i cb p q)))"
proof -
  define n where "n = \<lparr>tid = i, callback = cb, priority = p, promise = pushes (cancel i q)\<rparr>"
  define q2 where "q2 = (cancel i q)\<lparr>queued := map_set n (queued (cancel i q)),
      pushes := Suc (pushes (cancel i q))\<rparr>"
  from assms(3) have "n \<noteq> t" by (auto simp: n_def cancel_pushes)
  moreover have "t \<notin> set (queued (cancel i q)) \<and> t \<notin> set (pending (cancel i q))"
    using assms(2) by (auto simp: cancel_def Let_def map_delete_def split: option.splits)
  ultimately have "t \<notin> set (queued q2) \<and> t \<notin> set (pending q2)"
    using map_set_subset [of n "queued (cancel i q)"] by (auto simp: q2_def)
  then have "t \<notin> set (queued (dequeue env q2)) \<and> t \<notin> set (pending (dequeue env q2))"
    by (rule dequeue_absent)
  with assms(1) show ?thesis by (auto simp: push_def Let_def q2_def n_def)
qed

lemma present_task:
  assumes "promises_ok q" and "map_get i (queued q) = Some t \<or> map_get i (pending q) = Some t"
  shows "tid t = i \<and> promise t < pushes q"
proof -
  from assms(2) have "tid t = i" and "t \<in> set (queued q) \<or> t \<in> set (pending q)"
    by (auto simp: map_get_def find_Some_iff)
  with assms(1) show ?thesis by (auto simp: promises_ok_def)
qed

lemma push_accepted:
  "snd (push env i cb p q) \<noteq> None \<Longrightarrow> \<not> (closed q \<and> \<not> is_sentinel i)"
  by (cases "closed q \<and> \<not> is_sentinel i") (simp_all add: push_def)

text \<open>
  Claim C4 as stated fails, for a queued task and for a pending one. With concurrency 1,
  \<open>x\<close> pending and \<open>a\<close> queued, \<open>cancel('a')\<close> calls no cancel handle, and the promise of \<open>a\<close>
  (number 1) is never settled: no completion can arrive for a task that was not started.
  A pending task whose run has no cancel handle is only removed by \<open>cancel\<close>, and its
  promise resolves when its callback finishes; one whose run has a handle resolves as well
  when its callback catches the canceled failure, as the snapshot task of the core does.
\<close>

theorem cancel_does_not_reject_counterexample:
  "has ''a'' (run_ops calm (new_queue 1) [Push ''x'' 0 Undefined, Push ''a'' 1 Undefined])
   \<and> map promise (queued (run_ops calm (new_queue 1)
        [Push ''x'' 0 Undefined, Push ''a'' 1 Undefined])) = [1]
   \<and> triggered (run_ops calm (new_queue 1)
        [Push ''x'' 0 Undefined, Push ''a'' 1 Undefined, Cancel ''a'']) = []
   \<and> settled (run_ops calm (new_queue 1)
        [Push ''x'' 0 Undefined, Push ''a'' 1 Undefined, Cancel ''a'',
         Done 1 (Rejected Canceled), Done 0 Resolved]) = [(0, Resolved)]
   \<and> map promise (pending (run_ops bare (new_queue 1) [Push ''x'' 0 Undefined])) = [0]
   \<and> triggered (run_ops bare (new_queue 1) [Push ''x'' 0 Undefined, Cancel ''x'']) = []
   \<and> settled (run_ops bare (new_queue 1)
        [Push ''x'' 0 Undefined, Cancel ''x'', Done 0 Resolved]) = [(0, Resolved)]
   \<and> triggered (run_ops calm (new_queue 1) [Push ''x'' 0 Undefined, Cancel ''x'']) = [0]
   \<and> settled (run_ops calm (new_queue 1)
        [Push ''x'' 0 Undefined, Cancel ''x'', Done 0 Resolved]) = [(0, Resolved)]"
  by code_simp

text \<open>
  Claim C4, amended. In every state reached from a new queue: \<open>cancel(id)\<close> removes the id
  from both maps and settles no promise; it calls the cancel handle of the task pending
  under the id if that task has one, and calls nothing otherwise. A task that was queued
  under the id is never started, never has a handle called and its promise is never
  settled, whatever happens later. An accepted \<open>push(id, f2)\<close> removes the previous task
  of the id from both maps, calls the same handle as \<open>cancel(id)\<close> and no other, and leaves a
  previously queued task as unstarted and unsettled for ever. No task is started more than
  once.
\<close>

theorem cancel_contract:
  fixes ops later :: "op list" and env :: adapter and c :: int
  defines "q \<equiv> run_ops env (new_queue c) ops"
  shows "\<not> has i (cancel i q)
       \<and> settled (cancel i q) = settled q
       \<and> triggered (cancel i q) =
           (case map_get i (pending q) of
              None \<Rightarrow> triggered q
            | Some t \<Rightarrow> if promise t \<in> set (handles q)
                        then List.insert (promise t) (triggered q) else triggered q)
       \<and> (\<forall>t. map_get i (queued q) = Some t \<longrightarrow>
              promise t \<notin> set (map promise (started (run_ops env (cancel i q) later)))
              \<and> promise t \<notin> set (triggered (run_ops env (cancel i q) later))
              \<and> promise t \<notin> set (map fst (settled (run_ops env (cancel i q) later))))
       \<and> (snd (push env i cb p q) \<noteq> None \<longrightarrow>
              triggered (fst (push env i cb p q)) = triggered (cancel i q)
              \<and> (\<forall>t. map_get i (queued q) = Some t \<or> map_get i (pending q) = Some t \<longrightarrow>
                     t \<notin> set (queued (fst (push env i cb p q)))
                     \<and> t \<notin> set (pending (fst (push env i cb p q))))
              \<and> (\<forall>t. map_get i (queued q) = Some t \<longrightarrow>
                     promise t \<notin> set (map promise
                        (started (run_ops env (fst (push env i cb p q)) later)))
                     \<and> promise t \<notin> set (triggered (run_ops env (fst (push env i cb p q)) later))
                     \<and> promise t \<notin> set (map fst (settled
                          (run_ops env (fst (push env i cb p q)) later)))))
       \<and> distinct (map promise (started q))"
proof -
  have ok: "promises_ok q"
    unfolding q_def by (intro run_ops_promises_ok new_queue_promises_ok)
  have a: "\<not> has i (cancel i q)" by (rule cancel_removes)
  have b: "settled (cancel i q) = settled q" by (rule cancel_settles_nothing)
  note c = cancel_calls_handle [of i q]
  have d: "promise t \<notin> set (map promise (started (run_ops env (cancel i q) later)))
      \<and> promise t \<notin> set (triggered (run_ops env (cancel i q) later))
      \<and> promise t \<notin> set (map fst (settled (run_ops env (cancel i q) later)))"
    if "map_get i (queued q) = Some t" for t
  proof -
    from ok that have "unstarted (promise t) (cancel i q)" by (rule cancel_queued_unstarted)
    moreover have "promises_ok (cancel i q)" using ok by (rule cancel_promises_ok)
    ultimately show ?thesis by (intro unstarted_never_settled)
  qed
  have e: "triggered (fst (push env i cb p q)) = triggered (cancel i q)
      \<and> (\<forall>t. map_get i (queued q) = Some t \<or> map_get i (pending q) = Some t \<longrightarrow>
             t \<notin> set (queued (fst (push env i cb p q)))
             \<and> t \<notin> set (pending (fst (push env i cb p q))))
      \<and> (\<forall>t. map_get i (queued q) = Some t \<longrightarrow>
             promise t \<notin> set (map promise (started (run_ops env (fst (push env i cb p q)) later)))
             \<and> promise t \<notin> set (triggered (run_ops env (fst (push env i cb p q)) later))
             \<and> promise t \<notin> set (map fst (settled
                  (run_ops env (fst (push env i cb p q)) later))))"
    if "snd (push env i cb p q) \<noteq> None"
  proof (intro conjI allI impI)
    from that have acc: "\<not> (closed q \<and> \<not> is_sentinel i)" by (rule push_accepted)
    then show "triggered (fst (push env i cb p q)) = triggered (cancel i q)"
      by (rule push_triggered)
    have ok': "promises_ok (fst (push env i cb p q))" using ok by (rule push_promises_ok)
    {
      fix t
      assume "map_get i (queued q) = Some t \<or> map_get i (pending q) = Some t"
      with ok have "tid t = i \<and> promise t < pushes q" by (rule present_task)
      with acc have "t \<notin> set (queued (fst (push env i cb p q)))
          \<and> t \<notin> set (pending (fst (push env i cb p q)))"
        by (intro push_removes_previous) simp_all
      then show "t \<notin> set (queued (fst (push env i cb p q)))"
        and "t \<notin> set (pending (fst (push env i cb p q)))"
        by simp_all
    }
    {
      fix t
      assume "map_get i (queued q) = Some t"
      with ok have "unstarted (promise t) (cancel i q)" by (rule cancel_queued_unstarted)
      with acc have "unstarted (promise t) (fst (push env i cb p q))"
        by (rule push_after_cancel_unstarted)
      with ok' have "promise t \<notin> set (map promise (started (run_ops env (fst (push env i cb p q)) later)))
          \<and> promise t \<notin> set (triggered (run_ops env (fst (push env i cb p q)) later))
          \<and> promise t \<notin> set (map fst (settled (run_ops env (fst (push env i cb p q)) later)))"
        by (intro unstarted_never_settled)
      then show "promise t \<notin> set (map promise (started (run_ops env (fst (push env i cb p q)) later)))"
        and "promise t \<notin> set (triggered (run_ops env (fst (push env i cb p q)) later))"
        and "promise t \<notin> set (map fst (settled (run_ops env (fst (push env i cb p q)) later)))"
        by simp_all
    }
  qed
  have f: "distinct (map promise (started q))" using ok by (simp add: promises_ok_def)
  from a b c d e f show ?thesis by blast
qed

theorem cancel_contract_witness:
  "map_get ''a'' (queued (run_ops calm (new_queue 1)
       [Push ''x'' 0 Undefined, Push ''a'' 1 Undefined]))
     = Some \<lparr>tid = ''a'', callback = Opaque 1, priority = Undefined, promise = 1\<rparr>
   \<and> snd (push calm ''a'' (Opaque 2) Undefined (run_ops calm (new_queue 1)
       [Push ''x'' 0 Undefined, Push ''a'' 1 Undefined])) \<noteq> None
   \<and> 1 \<notin> set (map fst (settled (run_ops calm
       (cancel ''a'' (run_ops calm (new_queue 1) [Push ''x'' 0 Undefined, Push ''a'' 1 Undefined]))
       [Done 0 Resolved, Done 1 Resolved])))
   \<and> 1 \<notin> set (map fst (settled (run_ops calm
       (fst (push calm ''a'' (Opaque 2) Undefined (run_ops calm (new_queue 1)
          [Push ''x'' 0 Undefined, Push ''a'' 1 Undefined])))
       [Done 0 Resolved, Done 2 Resolved])))
   \<and> \<lparr>tid = ''a'', callback = Opaque 1, priority = Undefined, promise = 1\<rparr>
       \<notin> set (queued (fst (push calm ''a'' (Opaque 2) Undefined (run_ops calm (new_queue 1)
          [Push ''x'' 0 Undefined, Push ''a'' 1 Undefined]))))"
proof -
  let ?q = "run_ops calm (new_queue 1) [Push ''x'' 0 Undefined, Push ''a'' 1 Undefined]"
  let ?a = "\<lparr>tid = ''a'', callback = Opaque 1, priority = Undefined, promise = 1\<rparr>"
  have h1: "map_get ''a'' (queued ?q) = Some ?a" by code_simp
  have h2: "snd (push calm ''a'' (Opaque 2) Undefined ?q) \<noteq> None" by code_simp
  from cancel_contract [where env = calm and c = 1
      and ops = "[Push ''x'' 0 Undefined, Push ''a'' 1 Undefined]" and i = "''a''"
      and cb = "Opaque 2" and p = Undefined and later = "[Done 0 Resolved, Done 1 Resolved]"] h1
  have a: "1 \<notin> set (map fst (settled (run_ops calm (cancel ''a'' ?q)
      [Done 0 Resolved, Done 1 Resolved])))"
    by fastforce
  from cancel_contract [where env = calm and c = 1
      and ops = "[Push ''x'' 0 Undefined, Push ''a'' 1 Undefined]" and i = "''a''"
      and cb = "Opaque 2" and p = Undefined and later = "[Done 0 Resolved, Done 2 Resolved]"] h1 h2
  have b: "1 \<notin> set (map fst (settled (run_ops calm
      (fst (push calm ''a'' (Opaque 2) Undefined ?q)) [Done 0 Resolved, Done 2 Resolved])))"
    and c: "?a \<notin> set (queued (fst (push calm ''a'' (Opaque 2) Undefined ?q)))"
    by fastforce+
  from h1 h2 a b c show ?thesis by (intro conjI)
qed

section \<open>Properties of the logger\<close>

subsection \<open>Filtered messages are stored and not written\<close>

text \<open>A level is below another when both are known levels and its number is smaller.\<close>

definition level_below :: "string \<Rightarrow> string \<Rightarrow> bool" where
  "level_below lvl cur =
     (case own_level lvl of
        None \<Rightarrow> False
      | Some n \<Rightarrow> (case own_level cur of None \<Rightarrow> False | Some m \<Rightarrow> n < m))"

lemma filtered_not_logged:
  assumes "\<not> list_ex (\<lambda>ns. test ns dbg) (ns_include (namespaces lg))
      \<or> list_ex (\<lambda>ns. test ns dbg) (ns_exclude (namespaces lg))
      \<or> level_below lvl (level lg)"
  shows "\<not> shouldLog test proto dbg lvl lg"
  using assms
  by (auto simp: shouldLog_def level_below_def LOG_LEVELS_def split: option.splits)

text \<open>
  Claim C9. When the logger is not remote and the namespace filter rejects \<open>debug\<close> (no
  include expression matches it, or an exclude expression does) or the level is below the
  current level, \<open>log\<close> leaves \<open>stdout\<close> and \<open>stderr\<close> as they were and appends the entry to
  the in-memory store.
\<close>

theorem filtered_log_stored_not_written:
  assumes "\<not> isRemote lg"
    and "\<not> list_ex (\<lambda>ns. test ns dbg) (ns_include (namespaces lg))
      \<or> list_ex (\<lambda>ns. test ns dbg) (ns_exclude (namespaces lg))
      \<or> level_below lvl (level lg)"
  shows "stdout (log test proto url now dbg lvl msg meta_arg lg) = stdout lg
       \<and> stderr (log test proto url now dbg lvl msg meta_arg lg) = stderr lg
       \<and> messages (log test proto url now dbg lvl msg meta_arg lg) =
           messages lg @
             [\<lparr>entry_debug = dbg, entry_level = lvl,
               entry_message = message_text (\<not> is_string msg \<and> (lvl = ''error'' \<or> lvl = ''debug'')) msg,
               entry_meta = (case meta_arg of Some m \<Rightarrow> m | None \<Rightarrow> []),
               entry_timestamp = now\<rparr>]"
proof -
  define e where "e = \<lparr>entry_debug = dbg, entry_level = lvl,
      entry_message = message_text (\<not> is_string msg \<and> (lvl = ''error'' \<or> lvl = ''debug'')) msg,
      entry_meta = (case meta_arg of Some m \<Rightarrow> m | None \<Rightarrow> []), entry_timestamp = now\<rparr>"
  have same: "shouldLog test proto dbg lvl (lg\<lparr>messages := messages lg @ [e]\<rparr>) = shouldLog test proto dbg lvl lg"
    by (simp add: shouldLog_def split: option.splits)
  from assms(2) have "\<not> shouldLog test proto dbg lvl lg" by (rule filtered_not_logged)
  with same assms(1) have "log test proto url now dbg lvl msg meta_arg lg = lg\<lparr>messages := messages lg @ [e]\<rparr>"
    by (simp add: log_def Let_def e_def)
  then show ?thesis by (simp add: e_def)
qed

theorem filtered_log_stored_not_written_witness:
  "\<not> isRemote new_logger \<and> level_below ''debug'' (level new_logger)
   \<and> stdout (log (\<lambda>r s. True) (\<lambda>l. None) (\<lambda>s. None) 5 ''core'' ''debug'' (Str ''hello'') None new_logger) = []
   \<and> stderr (log (\<lambda>r s. True) (\<lambda>l. None) (\<lambda>s. None) 5 ''core'' ''debug'' (Str ''hello'') None new_logger) = []
   \<and> messages (log (\<lambda>r s. True) (\<lambda>l. None) (\<lambda>s. None) 5 ''core'' ''debug'' (Str ''hello'') None new_logger)
       = [\<lparr>entry_debug = ''core'', entry_level = ''debug'', entry_message = ''hello'',
            entry_meta = [], entry_timestamp = 5\<rparr>]"
proof -
  have h1: "\<not> isRemote new_logger" by (simp add: isRemote_def new_logger_def)
  have h2: "level_below ''debug'' (level new_logger)"
    by (simp add: level_below_def own_level_def new_logger_def)
  from filtered_log_stored_not_written [OF h1 disjI2 [OF disjI2 [OF h2]],
      where test = "\<lambda>r s. True" and proto = "\<lambda>l. None" and dbg = "''core''"
        and url = "\<lambda>s. None" and now = 5
        and msg = "Str ''hello''" and meta_arg = None] h1 h2
  show ?thesis by (simp add: new_logger_def)
qed

text \<open>A message that passes the filter does reach \<open>stdout\<close>.\<close>

lemma passing_log_is_written:
  "stdout (log (\<lambda>r s. True) (\<lambda>l. None) (\<lambda>s. None) 5 ''core'' ''info'' (Str ''hello'') None new_logger) \<noteq> []"
  by (simp add: log_def Let_def shouldLog_def new_logger_def isRemote_def LOG_LEVELS_def
      own_level_def logger_write_def)

subsection \<open>\<open>debug\<close> called again with the same string\<close>

text \<open>
  Claim C10. The claim wants a second call of \<open>debug\<close> with the string of the first to
  return at once and leave the level alone, whatever was done to the level in between.
  The first line of \<open>debug\<close> does compare the argument with \<open>namespaces.string\<close>, and the
  second stores the argument there; but when the argument names a namespace the object
  built by \<open>reduce\<close> replaces \<open>namespaces\<close>, and its \<open>string\<close> is the array of names, which
  no string is identical to. After \<open>debug('core:*')\<close> and \<open>loglevel('info')\<close> the call
  \<open>debug('core:*')\<close> runs in full: the level, which was \<open>info\<close>, is \<open>debug\<close> again.
\<close>

theorem debug_repeated_resets_level:
  "ns_string (namespaces (fst (debug (\<lambda>s. True) (js ''core:*'') new_logger)))
     = Parts [js ''core:*'']
   \<and> level (loglevel ''info'' (fst (debug (\<lambda>s. True) (js ''core:*'') new_logger))) = ''info''
   \<and> level (fst (debug (\<lambda>s. True) (js ''core:*'')
        (loglevel ''info'' (fst (debug (\<lambda>s. True) (js ''core:*'') new_logger))))) = ''debug''"
proof -
  have first: "debug (\<lambda>s. True) (js ''core:*'') new_logger =
      (new_logger\<lparr>level := ''debug'',
         namespaces := \<lparr>ns_string = Parts [js ''core:*''],
           ns_include = [RegExp (js ''^core:?.*?$'')], ns_exclude = []\<rparr>\<rparr>, True)"
    by (simp add: debug_def js_def new_logger_def is_separator_def Let_def loglevel_def)
  show ?thesis
    unfolding first
    by (simp add: debug_def js_def is_separator_def Let_def loglevel_def)
qed

text \<open>
  The comparison of the first line does succeed while the stored value is a string, which
  is so after a call that names no namespace or whose \<open>new RegExp\<close> threw: then the call
  returns at once and changes nothing.
\<close>

lemma debug_same_string_returns:
  assumes "ns_string (namespaces lg) = Text s"
  shows "debug valid s lg = (lg, True)"
  using assms by (simp add: debug_def)

lemma debug_naming_nothing_keeps_string:
  "ns_string (namespaces (fst (debug (\<lambda>s. True) (js '', '') new_logger))) = Text (js '', '')"
  by (simp add: debug_def js_def new_logger_def is_separator_def Let_def)

section \<open>Properties of the core\<close>

text \<open>
  Claim C8. Whatever the options, \<open>snapshot\<close> fails when \<open>readyState\<close> is not \<open>1\<close> (with
  \<open>Not running\<close>) or when the build carries an error (with that error, a non-empty string),
  and the instance is returned as it was: neither queue receives a task. In the source the
  failure is an error thrown before \<open>options\<close> is looked at.
\<close>

theorem snapshot_rejects_unless_running:
  assumes "readyState p \<noteq> Some 1 \<or> build_error_set p \<noteq> None"
  shows "snapshot env validate gather cb opts p =
           (p, Some (if readyState p \<noteq> Some 1 then ''Not running''
                     else (case build_error_set p of Some e \<Rightarrow> e | None \<Rightarrow> [])))"
  using assms by (cases "build_error_set p") auto

theorem snapshot_rejects_unless_running_witness:
  "readyState \<lparr>readyState = Some 2, current_build = None,
       snapshots = new_queue 10, uploads = new_queue 10\<rparr> \<noteq> Some 1
   \<and> snapshot calm (\<lambda>x. Inr 0) (\<lambda>v. []) 0 (OString ''http://localhost/'')
         \<lparr>readyState = Some 2, current_build = None,
           snapshots = new_queue 10, uploads = new_queue 10\<rparr>
       = (\<lparr>readyState = Some 2, current_build = None,
            snapshots = new_queue 10, uploads = new_queue 10\<rparr>, Some ''Not running'')
   \<and> build_error_set \<lparr>readyState = Some 1,
         current_build = Some \<lparr>build_id = None, build_error = Some ''Failed to create build'',
           build_failed = False\<rparr>,
         snapshots = new_queue 10, uploads = new_queue 10\<rparr> \<noteq> None
   \<and> snapshot calm (\<lambda>x. Inr 0) (\<lambda>v. []) 0 (OArray [OObject 7])
         \<lparr>readyState = Some 1,
           current_build = Some \<lparr>build_id = None, build_error = Some ''Failed to create build'',
             build_failed = False\<rparr>,
           snapshots = new_queue 10, uploads = new_queue 10\<rparr>
       = (\<lparr>readyState = Some 1,
            current_build = Some \<lparr>build_id = None, build_error = Some ''Failed to create build'',
              build_failed = False\<rparr>,
            snapshots = new_queue 10, uploads = new_queue 10\<rparr>, Some ''Failed to create build'')"
proof -
  let ?stopping = "\<lparr>readyState = Some 2, current_build = None,
      snapshots = new_queue 10, uploads = new_queue 10\<rparr>"
  let ?failed = "\<lparr>readyState = Some 1,
      current_build = Some \<lparr>build_id = None, build_error = Some ''Failed to create build'',
        build_failed = False\<rparr>,
      snapshots = new_queue 10, uploads = new_queue 10\<rparr>"
  have h1: "readyState ?stopping \<noteq> Some 1" by simp
  have h2: "build_error_set ?failed \<noteq> None" by (simp add: build_error_set_def)
  from snapshot_rejects_unless_running [OF disjI1 [OF h1],
      where env = calm and validate = "\<lambda>x. Inr 0" and gather = "\<lambda>v. []" and cb = 0
        and opts = "OString ''http://localhost/''"]
    snapshot_rejects_unless_running [OF disjI2 [OF h2],
      where env = calm and validate = "\<lambda>x. Inr 0" and gather = "\<lambda>v. []" and cb = 0
        and opts = "OArray [OObject 7]"]
    h1 h2
  show ?thesis by (simp add: build_error_set_def)
qed

text \<open>A running instance without a build error does push the snapshot task.\<close>

lemma snapshot_running_enqueues:
  "map tid (pending (snapshots (fst
      (snapshot calm (\<lambda>x. Inr 0)
         (\<lambda>v. [\<lparr>snapshot_name = ''home'', additional_names = []\<rparr>]) 0 (OObject 7)
         \<lparr>readyState = Some 1, current_build = None,
           snapshots = new_queue 10, uploads = new_queue 10\<rparr>))))
   = [''snapshot/home'']"
  by code_simp

end
